theory Spec2Isabelle
  imports Main
begin

section \<open>The gossip feature gate of \<^verbatim>\<open>gms/feature.hh\<close>\<close>

text \<open>
  A \<^verbatim>\<open>gms::feature\<close> holds a flag \<^verbatim>\<open>_enabled\<close>, a
  \<^verbatim>\<open>shared_promise<> _pr\<close> and a boost::signals2 signal \<^verbatim>\<open>_s\<close>.
  A \<^verbatim>\<open>feature::listener\<close> holds a \<^verbatim>\<open>scoped_connection _conn\<close>
  and a slot bound to its own \<^verbatim>\<open>callback()\<close>, which disconnects
  \<^verbatim>\<open>_conn\<close> and then runs the virtual \<^verbatim>\<open>on_enabled()\<close>.

  Objects are identified by natural numbers (their addresses). The heap is a record
  \<open>world\<close>: the live features, the live listeners, every connection body the
  signals have created, every future a promise has handed out, and a trace of what
  ran. The virtual method \<^verbatim>\<open>on_enabled()\<close> of a listener is user code; it is
  given as a table \<open>R\<close> from listeners to the list of calls its body makes on
  features and listeners, so that a reaction can register, destroy and enable from
  inside a signal invocation.

  Not modelled: \<^verbatim>\<open>operator=(feature&&)\<close> (declared only), \<^verbatim>\<open>name()\<close>,
  \<^verbatim>\<open>operator<<\<close>, the \<^verbatim>\<open>_service\<close> pointer and the \<^verbatim>\<open>_started\<close> field, which
  the header never reads. The overload \<^verbatim>\<open>when_enabled(noncopyable_function)\<close> makes
  a listener whose \<^verbatim>\<open>on_enabled()\<close> is the function and registers it: it is
  \<open>NewListener\<close> followed by \<open>WhenEnabled\<close>, and dropping the returned holder is
  \<open>DestroyListener\<close>.
\<close>

subsection \<open>Data\<close>

type_synonym gid = nat
type_synonym lid = nat
type_synonym cid = nat
type_synonym fid = nat

text \<open>The calls a program (or a reaction) makes.\<close>

datatype oper =
    Construct gid string bool
  | Enable gid
  | IsEnabled gid
  | WhenEnabledFuture gid
  | WhenEnabled gid lid
  | NewListener lid
  | DestroyListener lid
  | DestroyFeature gid

datatype fstate = Pending | Ready | Broken

text \<open>
  The trace. \<open>Call\<close> and \<open>Ret\<close> bracket every call; \<open>Slot c\<close> is the signal
  calling the slot of connection body \<open>c\<close>; \<open>Begin l live\<close> is the entry of
  listener \<open>l\<close>'s \<^verbatim>\<open>on_enabled()\<close>, where \<open>live\<close> says whether any
  connection body of \<open>l\<close> was still connected at that moment; \<open>End l\<close> is its
  return; \<open>Saw g e r\<close> is what \<^verbatim>\<open>bool(feature)\<close> and the readiness of
  \<^verbatim>\<open>when_enabled()\<close> showed; \<open>Got g f s\<close> is the future \<open>f\<close> that
  \<^verbatim>\<open>when_enabled()\<close> returned, in state \<open>s\<close>.
\<close>

datatype event =
    Call oper
  | Ret oper
  | Slot cid
  | Begin lid bool
  | End lid
  | Saw gid bool bool
  | Got gid fid fstate
  | Flagged gid
  | Resolved gid bool

datatype error = OutOfFuel | Invalid

text \<open>A connection body of a signal: the listener its slot is bound to, and whether it
  is still connected.\<close>

record conn_body =
  c_slot :: lid
  c_connected :: bool

text \<open>\<^verbatim>\<open>shared_promise<>\<close>: whether the value is set, and the futures handed out
  while it was not.\<close>

record shared_promise =
  sp_available :: bool
  sp_peers :: "fid list"

text \<open>\<^verbatim>\<open>class feature\<close>. \<open>f_s\<close> is the signal's list of connection bodies in
  connection order. The last two fields are history variables of the specification:
  the flag the constructor was given, and how often \<^verbatim>\<open>enable()\<close> was called.\<close>

record feature =
  f_name :: string
  f_enabled :: bool
  f_pr :: shared_promise
  f_s :: "cid list"
  f_ctor_enabled :: bool
  f_enable_calls :: nat

text \<open>\<^verbatim>\<open>class feature::listener\<close>: the scoped connection (empty at first). The slot
  is constant (bound to \<^verbatim>\<open>callback\<close> and \<^verbatim>\<open>this\<close>) and
  \<^verbatim>\<open>_started\<close> is not used by this file.\<close>

record listener =
  l_conn :: "cid option"

record world =
  features :: "gid \<Rightarrow> feature option"
  listeners :: "lid \<Rightarrow> listener option"
  conns :: "conn_body list"
  futures :: "fstate list"
  trace :: "event list"

definition empty_world :: world where
  "empty_world = \<lparr>features = (\<lambda>_. None), listeners = (\<lambda>_. None), conns = [], futures = [], trace = []\<rparr>"

subsection \<open>boost::signals2 connections\<close>

definition log_event :: "event \<Rightarrow> world \<Rightarrow> world" where
  "log_event e w = w\<lparr>trace := trace w @ [e]\<rparr>"

definition connected :: "world \<Rightarrow> cid \<Rightarrow> bool" where
  "connected w c = (c < length (conns w) \<and> c_connected (conns w ! c))"

definition slot_of :: "world \<Rightarrow> cid \<Rightarrow> lid" where
  "slot_of w c = c_slot (conns w ! c)"

text \<open>\<^verbatim>\<open>connection::disconnect()\<close>: marks the body disconnected; doing it again
  changes nothing.\<close>

definition disconnect :: "cid \<Rightarrow> world \<Rightarrow> world" where
  "disconnect c w =
     (if c < length (conns w)
      then w\<lparr>conns := (conns w)[c := (conns w ! c)\<lparr>c_connected := False\<rparr>]\<rparr>
      else w)"

text \<open>\<^verbatim>\<open>scoped_connection::disconnect()\<close> on a connection that may be empty.\<close>

definition scoped_disconnect :: "cid option \<Rightarrow> world \<Rightarrow> world" where
  "scoped_disconnect co w = (case co of None \<Rightarrow> w | Some c \<Rightarrow> disconnect c w)"

text \<open>\<^verbatim>\<open>_s.connect(slot)\<close>: a new connected body at the back of the signal's list.
  A connect during an invocation of the signal copies the list, so the invocation
  in progress keeps iterating the bodies it started with.\<close>

definition connect :: "gid \<Rightarrow> feature \<Rightarrow> lid \<Rightarrow> world \<Rightarrow> cid \<times> world" where
  "connect g f l w =
     (let c = length (conns w)
      in (c, w\<lparr>features := (features w)(g \<mapsto> f\<lparr>f_s := f_s f @ [c]\<rparr>),
                conns := conns w @ [\<lparr>c_slot = l, c_connected = True\<rparr>]\<rparr>))"

text \<open>Whether listener \<open>l\<close> has any connected body, anywhere.\<close>

definition has_live :: "world \<Rightarrow> lid \<Rightarrow> bool" where
  "has_live w l = list_ex (\<lambda>b. c_slot b = l \<and> c_connected b) (conns w)"

subsection \<open>seastar::shared_promise\<close>

definition mark :: "fstate \<Rightarrow> fid list \<Rightarrow> fstate list \<Rightarrow> fstate list" where
  "mark s ps fs = fold (\<lambda>i xs. xs[i := s]) ps fs"

text \<open>\<^verbatim>\<open>set_value()\<close>: the promise becomes available and every waiting future
  ready.\<close>

definition set_value :: "shared_promise \<Rightarrow> fstate list \<Rightarrow> shared_promise \<times> fstate list" where
  "set_value p fs = (p\<lparr>sp_available := True, sp_peers := []\<rparr>, mark Ready (sp_peers p) fs)"

text \<open>\<^verbatim>\<open>get_shared_future()\<close>: a ready future when the value is set, otherwise
  a new pending future that waits with the others.\<close>

definition get_shared_future :: "shared_promise \<Rightarrow> fstate list \<Rightarrow> fid \<times> shared_promise \<times> fstate list" where
  "get_shared_future p fs =
     (let i = length fs
      in if sp_available p then (i, p, fs @ [Ready])
         else (i, p\<lparr>sp_peers := sp_peers p @ [i]\<rparr>, fs @ [Pending]))"

subsection \<open>The listener\<close>

text \<open>\<^verbatim>\<open>void set_connection(bs2::scoped_connection&& conn) { _conn = std::move(conn); }\<close>
  Move assignment of a scoped connection disconnects the one it held.\<close>

definition set_connection :: "lid \<Rightarrow> listener \<Rightarrow> cid \<Rightarrow> world \<Rightarrow> world" where
  "set_connection l L c w =
     (scoped_disconnect (l_conn L) w)\<lparr>listeners := (listeners w)(l \<mapsto> L\<lparr>l_conn := Some c\<rparr>)\<rparr>"

text \<open>\<^verbatim>\<open>void callback() { _conn.disconnect(); on_enabled(); }\<close>, up to the entry of
  \<^verbatim>\<open>on_enabled()\<close>: the signal calls the slot of body \<open>c\<close>, that is the
  callback of the listener the slot is bound to. The result is that listener and the
  world in which its reaction starts.\<close>

definition callback :: "cid \<Rightarrow> world \<Rightarrow> error + (lid \<times> world)" where
  "callback c w =
     (let l = slot_of w c
      in case listeners w l of
           None \<Rightarrow> Inl Invalid
         | Some L \<Rightarrow>
             (let w1 = scoped_disconnect (l_conn L) (log_event (Slot c) w)
              in Inr (l, log_event (Begin l (has_live w1 l)) w1)))"

text \<open>\<^verbatim>\<open>listener()\<close> and the implicit destructor, which destroys
  \<^verbatim>\<open>_conn\<close> and so disconnects it.\<close>

definition new_listener :: "lid \<Rightarrow> world \<Rightarrow> error + (world \<times> cid list)" where
  "new_listener l w =
     (case listeners w l of
        Some L \<Rightarrow> Inl Invalid
      | None \<Rightarrow> Inr (w\<lparr>listeners := (listeners w)(l \<mapsto> \<lparr>l_conn = None\<rparr>)\<rparr>, []))"

definition destroy_listener :: "lid \<Rightarrow> world \<Rightarrow> error + (world \<times> cid list)" where
  "destroy_listener l w =
     (case listeners w l of
        None \<Rightarrow> Inl Invalid
      | Some L \<Rightarrow> Inr ((scoped_disconnect (l_conn L) w)\<lparr>listeners := (listeners w)(l := None)\<rparr>, []))"

subsection \<open>The feature\<close>

text \<open>
  Each call is split at its signal invocation: the function below does what the call
  does before \<^verbatim>\<open>_s()\<close> and returns the connection bodies that
  \<^verbatim>\<open>_s()\<close> is going to iterate (none when the call does not invoke the
  signal). A call on an object that does not exist (or a construction where one
  exists) is \<open>Invalid\<close>.
\<close>

text \<open>
  \<^verbatim>\<open>void when_enabled(listener& callback) const {
      callback.set_connection(_s.connect(callback.get_slot()));
      if (_enabled) { _s(); }
  }\<close>
\<close>

definition when_enabled :: "gid \<Rightarrow> lid \<Rightarrow> world \<Rightarrow> error + (world \<times> cid list)" where
  "when_enabled g l w =
     (case features w g of
        None \<Rightarrow> Inl Invalid
      | Some f \<Rightarrow>
          (case listeners w l of
             None \<Rightarrow> Inl Invalid
           | Some L \<Rightarrow>
               (let (c, w1) = connect g f l w;
                    w2 = set_connection l L c w1
                in Inr (w2, if f_enabled f then f_s f @ [c] else []))))"

text \<open>\<^verbatim>\<open>future<> when_enabled() const { return _pr.get_shared_future(); }\<close>\<close>

definition when_enabled_future :: "gid \<Rightarrow> world \<Rightarrow> error + (world \<times> cid list)" where
  "when_enabled_future g w =
     (case features w g of
        None \<Rightarrow> Inl Invalid
      | Some f \<Rightarrow>
          (let (i, p, fs) = get_shared_future (f_pr f) (futures w)
           in Inr (log_event (Got g i (fs ! i))
                     (w\<lparr>features := (features w)(g \<mapsto> f\<lparr>f_pr := p\<rparr>), futures := fs\<rparr>), [])))"

text \<open>\<^verbatim>\<open>explicit operator bool() const { return _enabled; }\<close>, together with the
  readiness of the shared future.\<close>

definition is_enabled :: "gid \<Rightarrow> world \<Rightarrow> error + (world \<times> cid list)" where
  "is_enabled g w =
     (case features w g of
        None \<Rightarrow> Inl Invalid
      | Some f \<Rightarrow> Inr (log_event (Saw g (f_enabled f) (sp_available (f_pr f))) w, []))"

text \<open>
  Modelled from the spec: the body of \<^verbatim>\<open>feature::enable()\<close>, which the header
  only declares. The spec: "Effect, performed in this order: (1) set enabled = true;
  (2) resolve shared_result; (3) invoke the broadcaster, synchronously, once", with no
  guard against a second call. The first two steps are the two functions below; each
  leaves an event in the trace, and the second records the flag it finds, so that the
  order of the steps can be read off the trace.
\<close>

definition set_enabled :: "gid \<Rightarrow> world \<Rightarrow> world" where
  "set_enabled g w =
     (case features w g of
        None \<Rightarrow> w
      | Some f \<Rightarrow>
          log_event (Flagged g)
            (w\<lparr>features := (features w)(g \<mapsto>
                 f\<lparr>f_enabled := True, f_enable_calls := Suc (f_enable_calls f)\<rparr>)\<rparr>))"

definition resolve :: "gid \<Rightarrow> world \<Rightarrow> world" where
  "resolve g w =
     (case features w g of
        None \<Rightarrow> w
      | Some f \<Rightarrow>
          (let (p, fs) = set_value (f_pr f) (futures w)
           in log_event (Resolved g (f_enabled f))
                (w\<lparr>features := (features w)(g \<mapsto> f\<lparr>f_pr := p\<rparr>), futures := fs\<rparr>)))"

definition enable :: "gid \<Rightarrow> world \<Rightarrow> error + (world \<times> cid list)" where
  "enable g w =
     (case features w g of
        None \<Rightarrow> Inl Invalid
      | Some f \<Rightarrow> Inr (resolve g (set_enabled g w), f_s f))"

text \<open>
  Modelled from the spec: the body of the constructor
  \<^verbatim>\<open>feature(feature_service& service, sstring name, bool enabled = false)\<close>, which
  the header only declares. The spec: "creates the gate in the given state. If
  constructed already enabled, no notification is sent at construction. Side effect:
  none beyond initializing state." The signal starts with no connection. The promise
  is resolved when the feature is constructed enabled: the spec has "shared_result is
  resolved iff enabled == true", and \<^verbatim>\<open>await_enabled()\<close> "resolves immediately if
  already enabled".
\<close>

definition construct :: "gid \<Rightarrow> string \<Rightarrow> bool \<Rightarrow> world \<Rightarrow> error + (world \<times> cid list)" where
  "construct g nm en w =
     (case features w g of
        Some f \<Rightarrow> Inl Invalid
      | None \<Rightarrow>
          Inr (w\<lparr>features := (features w)(g \<mapsto>
                 \<lparr>f_name = nm, f_enabled = en, f_pr = \<lparr>sp_available = en, sp_peers = []\<rparr>,
                  f_s = [], f_ctor_enabled = en, f_enable_calls = 0\<rparr>)\<rparr>, []))"

text \<open>
  Modelled from the spec: the destruction of a feature (the body of
  \<^verbatim>\<open>~feature()\<close> is not in the header). The spec: the gate "only holds
  weak/back-references through the broadcaster's internal bookkeeping, which are
  invalidated automatically on either side's destruction". The members are destroyed:
  the signal disconnects all its slots, and the promise breaks the futures that still
  wait.
\<close>

definition destroy_feature :: "gid \<Rightarrow> world \<Rightarrow> error + (world \<times> cid list)" where
  "destroy_feature g w =
     (case features w g of
        None \<Rightarrow> Inl Invalid
      | Some f \<Rightarrow>
          Inr ((fold disconnect (f_s f) w)\<lparr>features := (features w)(g := None),
                                           futures := mark Broken (sp_peers (f_pr f)) (futures w)\<rparr>, []))"

fun begin_op :: "oper \<Rightarrow> world \<Rightarrow> error + (world \<times> cid list)" where
  "begin_op (Construct g nm en) w = construct g nm en w"
| "begin_op (Enable g) w = enable g w"
| "begin_op (IsEnabled g) w = is_enabled g w"
| "begin_op (WhenEnabledFuture g) w = when_enabled_future g w"
| "begin_op (WhenEnabled g l) w = when_enabled g l w"
| "begin_op (NewListener l) w = new_listener l w"
| "begin_op (DestroyListener l) w = destroy_listener l w"
| "begin_op (DestroyFeature g) w = destroy_feature g w"

subsection \<open>Running calls, and the signal invocation\<close>

text \<open>
  \<open>run R n ops w\<close> makes the calls \<open>ops\<close> one after the other. \<open>invoke R n cs w\<close> is
  the signal invocation \<^verbatim>\<open>_s()\<close> over the bodies \<open>cs\<close> it started with: it
  calls, in order, the slot of every body that is still connected when its turn comes.
  The slot is the listener's \<^verbatim>\<open>callback()\<close>; the reaction it enters makes the
  calls \<open>R l\<close>, which may invoke signals again. \<open>n\<close> bounds the nesting depth of
  reactions: a reaction that registers its own listener on an enabled feature recurses
  for ever, and \<open>OutOfFuel\<close> is the result at every depth. A run that fails
  returns the error and the world it failed in.
\<close>

fun run :: "(lid \<Rightarrow> oper list) \<Rightarrow> nat \<Rightarrow> oper list \<Rightarrow> world \<Rightarrow> (error \<times> world) + world"
  and invoke :: "(lid \<Rightarrow> oper list) \<Rightarrow> nat \<Rightarrow> cid list \<Rightarrow> world \<Rightarrow> (error \<times> world) + world" where
  "run R n [] w = Inr w"
| "run R n (x # xs) w =
     (case begin_op x (log_event (Call x) w) of
        Inl e \<Rightarrow> Inl (e, log_event (Call x) w)
      | Inr (w1, cs) \<Rightarrow>
          (case invoke R n cs w1 of
             Inl ew \<Rightarrow> Inl ew
           | Inr w2 \<Rightarrow> run R n xs (log_event (Ret x) w2)))"
| "invoke R n [] w = Inr w"
| "invoke R n (c # cs) w =
     (if \<not> connected w c then invoke R n cs w
      else (case n of
              0 \<Rightarrow> Inl (OutOfFuel, w)
            | Suc m \<Rightarrow>
                (case callback c w of
                   Inl e \<Rightarrow> Inl (e, w)
                 | Inr (l, w1) \<Rightarrow>
                     (case run R m (R l) w1 of
                        Inl ew \<Rightarrow> Inl ew
                      | Inr w2 \<Rightarrow> invoke R n cs (log_event (End l) w2)))))"

text \<open>The world a run ended in: the result, or the world in which it failed or ran
  out of fuel.\<close>

definition final :: "(error \<times> world) + world \<Rightarrow> world" where
  "final r = (case r of Inl (e, w) \<Rightarrow> w | Inr w \<Rightarrow> w)"

subsection \<open>Well-formed worlds and what a run adds to the trace\<close>

text \<open>
  The heap invariant: a connected body belongs to a live listener whose
  \<^verbatim>\<open>_conn\<close> is that body; a signal lists its bodies once each, and they
  exist; and the body a listener holds exists and has its slot bound to that listener.
\<close>

definition wf_world :: "world \<Rightarrow> bool" where
  "wf_world w \<longleftrightarrow>
     (\<forall>c. connected w c \<longrightarrow> (\<exists>L. listeners w (slot_of w c) = Some L \<and> l_conn L = Some c)) \<and>
     (\<forall>g f. features w g = Some f \<longrightarrow> distinct (f_s f) \<and> (\<forall>c\<in>set (f_s f). c < length (conns w))) \<and>
     (\<forall>l L c. listeners w l = Some L \<longrightarrow> l_conn L = Some c \<longrightarrow>
        c < length (conns w) \<and> slot_of w c = l)"

definition new_events :: "world \<Rightarrow> world \<Rightarrow> event list" where
  "new_events w w' = drop (length (trace w)) (trace w')"

fun bracket :: "event \<Rightarrow> bool" where
  "bracket (Call x) = True"
| "bracket (Ret x) = True"
| "bracket (End l) = True"
| "bracket e = False"

text \<open>The events of a slot call.\<close>

fun fires :: "event \<Rightarrow> bool" where
  "fires (Slot c) = True"
| "fires (Begin l b) = True"
| "fires e = False"

subsection \<open>Example worlds\<close>

text \<open>One feature, not enabled, with three listeners registered in the order 0, 1, 2,
  and a fourth listener that is not registered.\<close>

definition three_waiting :: world where
  "three_waiting =
     final (run (\<lambda>_. []) 0
       [Construct 0 ''CDC'' False, NewListener 0, NewListener 1, NewListener 2, NewListener 3,
        WhenEnabled 0 0, WhenEnabled 0 1, WhenEnabled 0 2] empty_world)"

text \<open>The same world at the moment \<^verbatim>\<open>enable()\<close> is about to invoke the
  signal: the feature is enabled and the three listeners are still connected.\<close>

definition broadcasting :: world where
  "broadcasting = (case enable 0 three_waiting of Inr (w, cs) \<Rightarrow> w | Inl e \<Rightarrow> three_waiting)"

subsection \<open>Reactions that only look\<close>

text \<open>A call is an observation when it only reads a live feature; a listener is
  quiet when its reaction makes observations only. \<open>saw\<close> is what an observation
  adds to the trace, and \<open>fire_events\<close> what the call of a quiet listener's slot
  adds.\<close>

fun observes :: "world \<Rightarrow> oper \<Rightarrow> bool" where
  "observes w (IsEnabled g) = (features w g \<noteq> None)"
| "observes w x = False"

fun saw :: "world \<Rightarrow> oper \<Rightarrow> event list" where
  "saw w (IsEnabled g) =
     (case features w g of
        None \<Rightarrow> []
      | Some f \<Rightarrow> [Call (IsEnabled g), Saw g (f_enabled f) (sp_available (f_pr f)), Ret (IsEnabled g)])"
| "saw w x = []"

definition quiet :: "(lid \<Rightarrow> oper list) \<Rightarrow> world \<Rightarrow> lid \<Rightarrow> bool" where
  "quiet R w l = list_all (observes w) (R l)"

definition fire_events :: "(lid \<Rightarrow> oper list) \<Rightarrow> world \<Rightarrow> cid \<Rightarrow> event list" where
  "fire_events R w c =
     [Slot c, Begin (slot_of w c) False] @ concat (map (saw w) (R (slot_of w c))) @ [End (slot_of w c)]"

text \<open>What an observation can see of a world.\<close>

definition view :: "world \<Rightarrow> gid \<Rightarrow> (bool \<times> bool) option" where
  "view w g = map_option (\<lambda>f. (f_enabled f, sp_available (f_pr f))) (features w g)"

text \<open>The same world after \<^verbatim>\<open>enable()\<close> returned, when no reaction does
  anything.\<close>

definition all_fired :: world where
  "all_fired = final (run (\<lambda>_. []) 1 [Enable 0] three_waiting)"

text \<open>The listeners whose reactions a trace enters, in order.\<close>

fun begins :: "event list \<Rightarrow> lid list" where
  "begins [] = []"
| "begins (Begin l b # es) = l # begins es"
| "begins (e # es) = begins es"

text \<open>A feature constructed not enabled and three listeners, none registered.\<close>

definition fresh_world :: world where
  "fresh_world =
     final (run (\<lambda>_. []) 0
       [Construct 0 ''CDC'' False, NewListener 0, NewListener 1, NewListener 2] empty_world)"

text \<open>The flag, the promise and the history of a feature agree: a feature is enabled when
  it was constructed so or \<^verbatim>\<open>enable()\<close> was called, and its promise is resolved when
  it is enabled.\<close>

definition flag_inv :: "world \<Rightarrow> bool" where
  "flag_inv w \<longleftrightarrow>
     (\<forall>g f. features w g = Some f \<longrightarrow>
        (f_enabled f \<longleftrightarrow> f_ctor_enabled f \<or> 0 < f_enable_calls f) \<and>
        (sp_available (f_pr f) \<longleftrightarrow> f_enabled f))"

text \<open>The registrations of listener \<open>l\<close> in a trace.\<close>

fun registers :: "lid \<Rightarrow> event \<Rightarrow> bool" where
  "registers l (Call (WhenEnabled g l')) = (l' = l)"
| "registers l e = False"

definition registrations :: "lid \<Rightarrow> event list \<Rightarrow> nat" where
  "registrations l es = length (filter (registers l) es)"

subsection \<open>Cancelled registrations, and slots that are called\<close>

text \<open>The calls that cancel a registration of listener \<open>l\<close> on feature \<open>g\<close>: the
  destruction of the listener or of the feature, and another registration of the
  listener, which replaces its connection.\<close>

fun cancels :: "gid \<Rightarrow> lid \<Rightarrow> oper \<Rightarrow> bool" where
  "cancels g l (DestroyListener l') = (l' = l)"
| "cancels g l (WhenEnabled g' l') = (l' = l)"
| "cancels g l (DestroyFeature g') = (g' = g)"
| "cancels g l x = False"

fun cancel_event :: "gid \<Rightarrow> lid \<Rightarrow> event \<Rightarrow> bool" where
  "cancel_event g l (Call x) = cancels g l x"
| "cancel_event g l e = False"

definition cancelled :: "gid \<Rightarrow> lid \<Rightarrow> event list \<Rightarrow> bool" where
  "cancelled g l es = list_ex (cancel_event g l) es"

text \<open>The trace has a call of the slot of body \<open>c\<close> that enters the reaction of
  listener \<open>l\<close>, with the listener disconnected.\<close>

fun fired :: "cid \<Rightarrow> lid \<Rightarrow> event list \<Rightarrow> bool" where
  "fired c l (e # e' # es) = ((e = Slot c \<and> e' = Begin l False) \<or> fired c l (e' # es))"
| "fired c l es = False"

text \<open>Body \<open>c\<close> is in no signal but that of feature \<open>g\<close>.\<close>

definition belongs :: "world \<Rightarrow> cid \<Rightarrow> gid \<Rightarrow> bool" where
  "belongs w c g \<longleftrightarrow> (\<forall>g' f'. features w g' = Some f' \<longrightarrow> c \<in> set (f_s f') \<longrightarrow> g' = g)"

text \<open>Every signal lists its bodies in the order of their creation, and no body is in
  two signals.\<close>

definition signals_wf :: "world \<Rightarrow> bool" where
  "signals_wf w \<longleftrightarrow>
     (\<forall>g f. features w g = Some f \<longrightarrow>
        sorted_wrt (<) (f_s f) \<and> (\<forall>c\<in>set (f_s f). belongs w c g))"

subsection \<open>The order of the slot calls\<close>

text \<open>The bodies whose slots a trace calls, in the order of the calls.\<close>

fun slots :: "event list \<Rightarrow> cid list" where
  "slots [] = []"
| "slots (Slot c # es) = c # slots es"
| "slots (e # es) = slots es"

text \<open>\<open>subseq_of xs ys\<close>: the list \<open>xs\<close> is \<open>ys\<close> with some elements left out.\<close>

fun subseq_of :: "'a list \<Rightarrow> 'a list \<Rightarrow> bool" where
  "subseq_of [] ys = True"
| "subseq_of (x # xs) [] = False"
| "subseq_of (x # xs) (y # ys) = (if x = y then subseq_of xs ys else subseq_of (x # xs) ys)"

text \<open>
  Three predicates for the proof that the slots of a signal are called in the order of
  its list. \<open>B\<close> is a set of bodies of the signal of feature \<open>g\<close>, and \<open>k\<close> the length
  of the trace at the start. \<open>tracked\<close>: the bodies of \<open>B\<close> exist, are in no other
  signal, and are in the signal of \<open>g\<close> as long as they are connected. \<open>in_order\<close>:
  the bodies of \<open>B\<close> that were called come before those that are connected, and were
  called in increasing order. \<open>ahead\<close>, for the list \<open>cs\<close> that an invocation still
  has to iterate: a connected body of \<open>B\<close> is in \<open>cs\<close> or comes after the bodies of
  \<open>cs\<close>.
\<close>

definition tracked :: "cid set \<Rightarrow> gid \<Rightarrow> world \<Rightarrow> bool" where
  "tracked B g w \<longleftrightarrow>
     wf_world w \<and> signals_wf w \<and>
     (\<forall>c\<in>B. c < length (conns w) \<and> belongs w c g \<and>
        (connected w c \<longrightarrow> (\<exists>f. features w g = Some f \<and> c \<in> set (f_s f))))"

definition in_order :: "cid set \<Rightarrow> nat \<Rightarrow> world \<Rightarrow> bool" where
  "in_order B k w \<longleftrightarrow>
     (\<forall>c\<in>B. \<forall>c'\<in>B. connected w c \<longrightarrow> c' \<in> set (slots (drop k (trace w))) \<longrightarrow> c' < c) \<and>
     sorted_wrt (<) (filter (\<lambda>c. c \<in> B) (slots (drop k (trace w))))"

definition ahead :: "cid set \<Rightarrow> cid list \<Rightarrow> world \<Rightarrow> bool" where
  "ahead B cs w \<longleftrightarrow>
     (\<forall>c\<in>set cs. c \<in> B \<longrightarrow> (\<forall>c'\<in>B. connected w c' \<longrightarrow> c' \<in> set cs \<or> c < c'))"


subsection \<open>Registrations that are served\<close>

text \<open>No body of an enabled feature is connected, those of \<open>S\<close> apart (the bodies that
  invocations in progress still have to iterate).\<close>

definition settled :: "cid set \<Rightarrow> world \<Rightarrow> bool" where
  "settled S w \<longleftrightarrow>
     (\<forall>g f c. features w g = Some f \<longrightarrow> f_enabled f \<longrightarrow> c \<in> set (f_s f) \<longrightarrow>
        connected w c \<longrightarrow> c \<in> S)"

text \<open>A trace in which listener \<open>l\<close> is registered at most once, and on feature \<open>g\<close>,
  and in which neither the listener nor the feature is destroyed.\<close>

definition undisturbed :: "gid \<Rightarrow> lid \<Rightarrow> event list \<Rightarrow> bool" where
  "undisturbed g l es \<longleftrightarrow>
     registrations l es \<le> 1 \<and> (\<forall>g'. Call (WhenEnabled g' l) \<in> set es \<longrightarrow> g' = g) \<and>
     Call (DestroyListener l) \<notin> set es \<and> Call (DestroyFeature g) \<notin> set es"

text \<open>Where listener \<open>l\<close> stands after the trace \<open>es\<close>: not registered yet, it is not
  connected and its reaction was not entered; registered once, either its reaction was
  entered and it is disconnected, or it waits, connected to the signal of \<open>g\<close>.\<close>

definition served :: "gid \<Rightarrow> lid \<Rightarrow> event list \<Rightarrow> world \<Rightarrow> bool" where
  "served g l es w \<longleftrightarrow>
     (registrations l es = 0 \<longrightarrow> \<not> has_live w l \<and> l \<notin> set (begins es)) \<and>
     (registrations l es = 1 \<longrightarrow>
        (l \<in> set (begins es) \<and> \<not> has_live w l) \<or>
        (l \<notin> set (begins es) \<and>
         (\<exists>c f. connected w c \<and> slot_of w c = l \<and> features w g = Some f \<and> c \<in> set (f_s f))))"

section \<open>Basic facts\<close>

lemma log_event_simps [simp]:
  "features (log_event e w) = features w"
  "listeners (log_event e w) = listeners w"
  "conns (log_event e w) = conns w"
  "futures (log_event e w) = futures w"
  "trace (log_event e w) = trace w @ [e]"
  by (simp_all add: log_event_def)

lemma connected_log_event [simp]: "connected (log_event e w) c = connected w c"
  by (simp add: connected_def)

lemma slot_of_log_event [simp]: "slot_of (log_event e w) c = slot_of w c"
  by (simp add: slot_of_def)

lemma has_live_log_event [simp]: "has_live (log_event e w) l = has_live w l"
  by (simp add: has_live_def)

lemma disconnect_simps [simp]:
  "features (disconnect c w) = features w"
  "listeners (disconnect c w) = listeners w"
  "futures (disconnect c w) = futures w"
  "trace (disconnect c w) = trace w"
  "length (conns (disconnect c w)) = length (conns w)"
  by (simp_all add: disconnect_def)

lemma connected_disconnect [simp]:
  "connected (disconnect c w) c' = (connected w c' \<and> c' \<noteq> c)"
  by (auto simp: connected_def disconnect_def nth_list_update)

lemma slot_of_disconnect [simp]: "slot_of (disconnect c w) c' = slot_of w c'"
  by (auto simp: slot_of_def disconnect_def nth_list_update)

lemma scoped_disconnect_simps [simp]:
  "features (scoped_disconnect co w) = features w"
  "listeners (scoped_disconnect co w) = listeners w"
  "futures (scoped_disconnect co w) = futures w"
  "trace (scoped_disconnect co w) = trace w"
  "length (conns (scoped_disconnect co w)) = length (conns w)"
  "slot_of (scoped_disconnect co w) c' = slot_of w c'"
  by (simp_all add: scoped_disconnect_def split: option.splits)

lemma connected_scoped_disconnect [simp]:
  "connected (scoped_disconnect co w) c' = (connected w c' \<and> co \<noteq> Some c')"
  by (auto simp: scoped_disconnect_def split: option.splits)

lemma fold_disconnect_simps [simp]:
  "features (fold disconnect cs w) = features w"
  "listeners (fold disconnect cs w) = listeners w"
  "futures (fold disconnect cs w) = futures w"
  "trace (fold disconnect cs w) = trace w"
  "length (conns (fold disconnect cs w)) = length (conns w)"
  "slot_of (fold disconnect cs w) c' = slot_of w c'"
  by (induction cs arbitrary: w; simp)+

lemma connected_fold_disconnect [simp]:
  "connected (fold disconnect cs w) c' = (connected w c' \<and> c' \<notin> set cs)"
  by (induction cs arbitrary: w) auto

lemma connected_upd [simp]:
  "connected (w\<lparr>features := F\<rparr>) c = connected w c"
  "connected (w\<lparr>listeners := Ls\<rparr>) c = connected w c"
  "connected (w\<lparr>futures := fs\<rparr>) c = connected w c"
  "connected (w\<lparr>trace := tr\<rparr>) c = connected w c"
  by (simp_all add: connected_def)

lemma slot_of_upd [simp]:
  "slot_of (w\<lparr>features := F\<rparr>) c = slot_of w c"
  "slot_of (w\<lparr>listeners := Ls\<rparr>) c = slot_of w c"
  "slot_of (w\<lparr>futures := fs\<rparr>) c = slot_of w c"
  "slot_of (w\<lparr>trace := tr\<rparr>) c = slot_of w c"
  by (simp_all add: slot_of_def)

lemma connect_simps [simp]:
  "fst (connect g f l w) = length (conns w)"
  "features (snd (connect g f l w)) = (features w)(g \<mapsto> f\<lparr>f_s := f_s f @ [length (conns w)]\<rparr>)"
  "listeners (snd (connect g f l w)) = listeners w"
  "conns (snd (connect g f l w)) = conns w @ [\<lparr>c_slot = l, c_connected = True\<rparr>]"
  "futures (snd (connect g f l w)) = futures w"
  "trace (snd (connect g f l w)) = trace w"
  by (simp_all add: connect_def Let_def)

lemma connected_connect [simp]:
  "connected (snd (connect g f l w)) c = (connected w c \<or> c = length (conns w))"
  by (auto simp: connected_def nth_append)

lemma slot_of_connect:
  "c < length (conns w) \<Longrightarrow> slot_of (snd (connect g f l w)) c = slot_of w c"
  "c = length (conns w) \<Longrightarrow> slot_of (snd (connect g f l w)) c = l"
  by (simp_all add: slot_of_def nth_append)

lemma set_connection_simps [simp]:
  "features (set_connection l L c w) = features w"
  "listeners (set_connection l L c w) = (listeners w)(l \<mapsto> L\<lparr>l_conn := Some c\<rparr>)"
  "futures (set_connection l L c w) = futures w"
  "trace (set_connection l L c w) = trace w"
  "length (conns (set_connection l L c w)) = length (conns w)"
  "slot_of (set_connection l L c w) c' = slot_of w c'"
  "connected (set_connection l L c w) c' = (connected w c' \<and> l_conn L \<noteq> Some c')"
  by (simp_all add: set_connection_def)

lemma when_enabled_Inr:
  "when_enabled g l w = Inr (w2, cs) \<longleftrightarrow>
     (\<exists>f L. features w g = Some f \<and> listeners w l = Some L \<and>
        w2 = set_connection l L (length (conns w)) (snd (connect g f l w)) \<and>
        cs = (if f_enabled f then f_s f @ [length (conns w)] else []))"
  by (auto simp: when_enabled_def connect_def Let_def split: option.splits)

lemma enable_eq:
  "enable g w =
     (case features w g of
        None \<Rightarrow> Inl Invalid
      | Some f \<Rightarrow>
          Inr (w\<lparr>features := (features w)(g \<mapsto>
                   f\<lparr>f_enabled := True, f_enable_calls := Suc (f_enable_calls f),
                     f_pr := fst (set_value (f_pr f) (futures w))\<rparr>),
                 futures := snd (set_value (f_pr f) (futures w)),
                 trace := trace w @ [Flagged g, Resolved g True]\<rparr>, f_s f))"
  by (simp add: enable_def set_enabled_def resolve_def log_event_def split_beta
        split: option.splits)

lemma connected_less: "connected w c \<Longrightarrow> c < length (conns w)"
  by (simp add: connected_def)

lemma wf_world_empty: "wf_world empty_world"
  by (simp add: wf_world_def empty_world_def connected_def)

lemma wf_world_log_event [simp]: "wf_world (log_event e w) = wf_world w"
  by (simp add: wf_world_def)

lemma wf_worldI:
  assumes "\<And>c. connected w c \<Longrightarrow> \<exists>L. listeners w (slot_of w c) = Some L \<and> l_conn L = Some c"
      and "\<And>g f. features w g = Some f \<Longrightarrow> distinct (f_s f) \<and> (\<forall>c\<in>set (f_s f). c < length (conns w))"
      and "\<And>l L c. listeners w l = Some L \<Longrightarrow> l_conn L = Some c \<Longrightarrow>
             c < length (conns w) \<and> slot_of w c = l"
  shows "wf_world w"
  unfolding wf_world_def using assms by blast

lemma wf_world_conn:
  "wf_world w \<Longrightarrow> connected w c \<Longrightarrow> \<exists>L. listeners w (slot_of w c) = Some L \<and> l_conn L = Some c"
  by (simp add: wf_world_def)

lemma wf_world_l_conn:
  "wf_world w \<Longrightarrow> listeners w l = Some L \<Longrightarrow> l_conn L = Some c \<Longrightarrow> c < length (conns w)"
  unfolding wf_world_def by blast

lemma wf_world_l_slot:
  "wf_world w \<Longrightarrow> listeners w l = Some L \<Longrightarrow> l_conn L = Some c \<Longrightarrow> slot_of w c = l"
  unfolding wf_world_def by blast

lemma wf_world_f_s:
  "wf_world w \<Longrightarrow> features w g = Some f \<Longrightarrow> distinct (f_s f) \<and> (\<forall>c\<in>set (f_s f). c < length (conns w))"
  unfolding wf_world_def by blast

lemma wf_world_futures_upd [simp]: "wf_world (w\<lparr>futures := fs\<rparr>) = wf_world w"
  by (simp add: wf_world_def)

lemma wf_world_features_upd:
  assumes "wf_world w"
      and "\<And>g f. F g = Some f \<Longrightarrow> distinct (f_s f) \<and> (\<forall>c\<in>set (f_s f). c < length (conns w))"
  shows "wf_world (w\<lparr>features := F\<rparr>)"
proof (rule wf_worldI)
  fix c assume "connected (w\<lparr>features := F\<rparr>) c"
  then show "\<exists>L. listeners (w\<lparr>features := F\<rparr>) (slot_of (w\<lparr>features := F\<rparr>) c) = Some L \<and> l_conn L = Some c"
    using wf_world_conn[OF assms(1), of c] by simp
next
  fix g f assume "features (w\<lparr>features := F\<rparr>) g = Some f"
  then show "distinct (f_s f) \<and> (\<forall>c\<in>set (f_s f). c < length (conns (w\<lparr>features := F\<rparr>)))"
    using assms(2)[of g f] by simp
next
  fix l L c assume "listeners (w\<lparr>features := F\<rparr>) l = Some L" "l_conn L = Some c"
  then show "c < length (conns (w\<lparr>features := F\<rparr>)) \<and> slot_of (w\<lparr>features := F\<rparr>) c = l"
    using wf_world_l_conn[OF assms(1), of l L c] wf_world_l_slot[OF assms(1), of l L c] by simp
qed

lemma wf_world_disconnects:
  assumes "wf_world w"
      and "\<And>c. connected w1 c \<Longrightarrow> connected w c"
      and "\<And>c. slot_of w1 c = slot_of w c"
      and "length (conns w1) = length (conns w)"
      and "listeners w1 = listeners w"
      and "\<And>g f. features w1 g = Some f \<Longrightarrow> features w g = Some f"
  shows "wf_world w1"
proof (rule wf_worldI)
  fix c assume "connected w1 c"
  then show "\<exists>L. listeners w1 (slot_of w1 c) = Some L \<and> l_conn L = Some c"
    using wf_world_conn[OF assms(1), of c] assms(2,3,5) by simp
next
  fix g f assume "features w1 g = Some f"
  then show "distinct (f_s f) \<and> (\<forall>c\<in>set (f_s f). c < length (conns w1))"
    using wf_world_f_s[OF assms(1), of g f] assms(4,6) by simp
next
  fix l L c assume "listeners w1 l = Some L" "l_conn L = Some c"
  then show "c < length (conns w1) \<and> slot_of w1 c = l"
    using wf_world_l_conn[OF assms(1), of l L c] wf_world_l_slot[OF assms(1), of l L c] assms(3,4,5)
    by simp
qed

lemma wf_world_begin_op:
  assumes "wf_world w" and "begin_op x w = Inr (w1, cs)"
  shows "wf_world w1"
proof (cases x)
  case (Construct g nm en)
  with assms(2) have
    w1: "w1 = w\<lparr>features := (features w)(g \<mapsto>
                 \<lparr>f_name = nm, f_enabled = en, f_pr = \<lparr>sp_available = en, sp_peers = []\<rparr>,
                  f_s = [], f_ctor_enabled = en, f_enable_calls = 0\<rparr>)\<rparr>"
    by (auto simp: construct_def split: option.splits)
  show ?thesis unfolding w1
    using wf_world_f_s[OF assms(1)]
    by (intro wf_world_features_upd[OF assms(1)]) (auto split: if_splits)
next
  case (Enable g)
  with assms(2) obtain f where f: "features w g = Some f" and
    w1: "w1 = log_event (Resolved g True) (log_event (Flagged g)
            (w\<lparr>features := (features w)(g \<mapsto> f\<lparr>f_enabled := True,
              f_enable_calls := Suc (f_enable_calls f),
              f_pr := f_pr f\<lparr>sp_available := True, sp_peers := []\<rparr>\<rparr>),
            futures := mark Ready (sp_peers (f_pr f)) (futures w)\<rparr>))"
    by (auto simp: enable_eq set_value_def log_event_def Let_def split: option.splits)
  show ?thesis unfolding w1 wf_world_log_event wf_world_futures_upd
    using wf_world_f_s[OF assms(1)] f
    by (intro wf_world_features_upd[OF assms(1)]) (auto split: if_splits)
next
  case (IsEnabled g)
  then show ?thesis using assms
    by (auto simp: is_enabled_def split: option.splits)
next
  case (WhenEnabledFuture g)
  with assms(2) obtain f where f: "features w g = Some f" and
    w1: "w1 = log_event (Got g (fst (get_shared_future (f_pr f) (futures w)))
                 (snd (snd (get_shared_future (f_pr f) (futures w))) !
                    fst (get_shared_future (f_pr f) (futures w))))
              (w\<lparr>features := (features w)(g \<mapsto> f\<lparr>f_pr := fst (snd (get_shared_future (f_pr f) (futures w)))\<rparr>),
                 futures := snd (snd (get_shared_future (f_pr f) (futures w)))\<rparr>)"
    by (auto simp: when_enabled_future_def split: option.splits prod.splits)
  show ?thesis unfolding w1 wf_world_log_event wf_world_futures_upd
    using wf_world_f_s[OF assms(1)] f
    by (intro wf_world_features_upd[OF assms(1)]) (auto split: if_splits)
next
  case (WhenEnabled g l)
  from assms(2) WhenEnabled obtain f L where
    f: "features w g = Some f" and L: "listeners w l = Some L" and
    w1: "w1 = set_connection l L (length (conns w)) (snd (connect g f l w))"
    by (auto simp: when_enabled_Inr)
  let ?c = "length (conns w)"
  show ?thesis
  proof (rule wf_worldI)
    fix c assume k: "connected w1 c"
    show "\<exists>L'. listeners w1 (slot_of w1 c) = Some L' \<and> l_conn L' = Some c"
    proof (cases "c = ?c")
      case True
      then show ?thesis
        by (simp add: w1 slot_of_connect)
    next
      case False
      with k have c: "connected w c" and ne: "l_conn L \<noteq> Some c"
        by (auto simp: w1)
      then obtain L' where L': "listeners w (slot_of w c) = Some L'" "l_conn L' = Some c"
        using wf_world_conn[OF assms(1)] by blast
      have "slot_of w c \<noteq> l" using L L' ne by auto
      then show ?thesis using L' c
        by (simp add: w1 slot_of_connect connected_less)
    qed
  next
    fix g' f' assume "features w1 g' = Some f'"
    then show "distinct (f_s f') \<and> (\<forall>c\<in>set (f_s f'). c < length (conns w1))"
      using wf_world_f_s[OF assms(1), of g'] f
      by (fastforce simp: w1 split: if_splits)
  next
    fix l' L' c assume l': "listeners w1 l' = Some L'" "l_conn L' = Some c"
    show "c < length (conns w1) \<and> slot_of w1 c = l'"
    proof (cases "l' = l")
      case True
      then show ?thesis using l' by (auto simp: w1 slot_of_connect)
    next
      case False
      then have "listeners w l' = Some L'" using l' by (simp add: w1)
      then have "c < length (conns w)" "slot_of w c = l'"
        using l'(2) wf_world_l_conn[OF assms(1)] wf_world_l_slot[OF assms(1)] by blast+
      then show ?thesis by (simp add: w1 slot_of_connect)
    qed
  qed
next
  case (NewListener l)
  with assms(2) have n: "listeners w l = None"
    and w1: "w1 = w\<lparr>listeners := (listeners w)(l \<mapsto> \<lparr>l_conn = None\<rparr>)\<rparr>"
    by (auto simp: new_listener_def split: option.splits)
  show ?thesis
  proof (rule wf_worldI)
    fix c assume "connected w1 c"
    then show "\<exists>L. listeners w1 (slot_of w1 c) = Some L \<and> l_conn L = Some c"
      using wf_world_conn[OF assms(1), of c] n by (auto simp: w1)
  next
    fix g f assume "features w1 g = Some f"
    then show "distinct (f_s f) \<and> (\<forall>c\<in>set (f_s f). c < length (conns w1))"
      using wf_world_f_s[OF assms(1), of g f] by (simp add: w1)
  next
    fix l' L c assume "listeners w1 l' = Some L" "l_conn L = Some c"
    then show "c < length (conns w1) \<and> slot_of w1 c = l'"
      using wf_world_l_conn[OF assms(1), of l' L c] wf_world_l_slot[OF assms(1), of l' L c]
      by (auto simp: w1 split: if_splits)
  qed
next
  case (DestroyListener l)
  with assms(2) obtain L where L: "listeners w l = Some L"
    and w1: "w1 = (scoped_disconnect (l_conn L) w)\<lparr>listeners := (listeners w)(l := None)\<rparr>"
    by (auto simp: destroy_listener_def split: option.splits)
  show ?thesis
  proof (rule wf_worldI)
    fix c assume "connected w1 c"
    then have c: "connected w c" "l_conn L \<noteq> Some c" by (auto simp: w1)
    then obtain L' where L': "listeners w (slot_of w c) = Some L'" "l_conn L' = Some c"
      using wf_world_conn[OF assms(1)] by blast
    then have "slot_of w c \<noteq> l" using L c(2) by auto
    then show "\<exists>L. listeners w1 (slot_of w1 c) = Some L \<and> l_conn L = Some c"
      using L' by (simp add: w1)
  next
    fix g f assume "features w1 g = Some f"
    then show "distinct (f_s f) \<and> (\<forall>c\<in>set (f_s f). c < length (conns w1))"
      using wf_world_f_s[OF assms(1), of g f] by (simp add: w1)
  next
    fix l' L' c assume "listeners w1 l' = Some L'" "l_conn L' = Some c"
    then show "c < length (conns w1) \<and> slot_of w1 c = l'"
      using wf_world_l_conn[OF assms(1), of l' L' c] wf_world_l_slot[OF assms(1), of l' L' c]
      by (auto simp: w1 split: if_splits)
  qed
next
  case (DestroyFeature g)
  with assms(2) have "features w g \<noteq> None"
    by (auto simp: destroy_feature_def split: option.splits)
  then obtain f where f: "features w g = Some f" by auto
  with assms(2) DestroyFeature have
    w1: "w1 = (fold disconnect (f_s f) w)\<lparr>features := (features w)(g := None),
               futures := mark Broken (sp_peers (f_pr f)) (futures w)\<rparr>"
    by (simp add: destroy_feature_def)
  show ?thesis
    by (rule wf_world_disconnects[OF assms(1)]) (auto simp: w1 split: if_splits)
qed

lemma has_live_iff: "has_live w l \<longleftrightarrow> (\<exists>c. connected w c \<and> slot_of w c = l)"
  unfolding has_live_def connected_def slot_of_def list_ex_iff in_set_conv_nth
  by (metis nth_mem in_set_conv_nth)

lemma wf_world_unique:
  assumes "wf_world w" and "connected w c" and "connected w c'" and "slot_of w c' = slot_of w c"
  shows "c' = c"
  using wf_world_conn[OF assms(1,2)] wf_world_conn[OF assms(1,3)] assms(4) by auto

lemma wf_world_disconnect: "wf_world w \<Longrightarrow> wf_world (disconnect c w)"
  by (simp add: wf_world_def)

lemma wf_world_trace_upd [simp]: "wf_world (w\<lparr>trace := tr\<rparr>) = wf_world w"
  by (simp add: wf_world_def)

lemma callback_wf:
  assumes "wf_world w" and "connected w c"
  shows "callback c w =
         Inr (slot_of w c, (disconnect c w)\<lparr>trace := trace w @ [Slot c, Begin (slot_of w c) False]\<rparr>)"
proof -
  obtain L where L: "listeners w (slot_of w c) = Some L" "l_conn L = Some c"
    using wf_world_conn[OF assms] by blast
  have "\<not> has_live (disconnect c (log_event (Slot c) w)) (slot_of w c)"
    using wf_world_unique[OF assms] by (auto simp: has_live_iff)
  then show ?thesis using L
    by (simp add: callback_def Let_def scoped_disconnect_def log_event_def disconnect_def)
qed

lemma wf_world_callback:
  assumes "wf_world w" and "connected w c" and "callback c w = Inr (l, w1)"
  shows "wf_world w1"
  using assms callback_wf[OF assms(1,2)] by (auto simp: wf_world_disconnect)

lemma final_simps [simp]: "final (Inr w) = w" "final (Inl (e, w)) = w"
  by (simp_all add: final_def)

text \<open>The invariant rule of runs: what every call, every slot call and every return
  preserves holds in the world a run ends in, whether it completes or not.\<close>

lemma run_invoke_invariant_call:
  assumes F: "\<And>x w. P w \<Longrightarrow> P (log_event (Call x) w)"
      and B: "\<And>x w w1 cs. P w \<Longrightarrow> begin_op x (log_event (Call x) w) = Inr (w1, cs) \<Longrightarrow> P w1"
      and T: "\<And>e w. P w \<Longrightarrow> bracket e \<Longrightarrow> P (log_event e w)"
      and C: "\<And>c w l w1. P w \<Longrightarrow> connected w c \<Longrightarrow> callback c w = Inr (l, w1) \<Longrightarrow> P w1"
  shows "P w \<Longrightarrow> P (final (run R n xs w))"
    and "P w \<Longrightarrow> P (final (invoke R n cs w))"
proof (induction R n xs w and R n cs w rule: run_invoke.induct)
  case (1 R n w)
  then show ?case by simp
next
  case (2 R n x xs w)
  have P0: "P (log_event (Call x) w)" using "2.prems" by (rule F)
  show ?case
  proof (cases "begin_op x (log_event (Call x) w)")
    case (Inl e)
    then show ?thesis using P0 by simp
  next
    case (Inr p)
    obtain w1 cs where p: "p = (w1, cs)" by (cases p)
    have b: "begin_op x (log_event (Call x) w) = Inr (w1, cs)" using Inr p by simp
    have P1: "P w1" using B[OF "2.prems" b] .
    have P2: "P (final (invoke R n cs w1))" using "2.IH"(1)[OF b refl P1] .
    show ?thesis
    proof (cases "invoke R n cs w1")
      case (Inl ew)
      then show ?thesis using P2 b by (cases ew) simp
    next
      case (Inr w2)
      have "P (log_event (Ret x) w2)" using P2 Inr by (simp add: T)
      then show ?thesis using "2.IH"(2)[OF b refl Inr] b Inr by simp
    qed
  qed
next
  case (3 R n w)
  then show ?case by simp
next
  case (4 R n c cs w)
  show ?case
  proof (cases "connected w c")
    case False
    then show ?thesis using "4.IH"(1) "4.prems" by simp
  next
    case True
    show ?thesis
    proof (cases n)
      case 0
      then show ?thesis using True "4.prems" by simp
    next
      case (Suc m)
      show ?thesis
      proof (cases "callback c w")
        case (Inl e)
        then show ?thesis using True Suc "4.prems" by simp
      next
        case (Inr p)
        obtain l w1 where p: "p = (l, w1)" by (cases p)
        have cb: "callback c w = Inr (l, w1)" using Inr p by simp
        have P1: "P w1" using C[OF "4.prems" True cb] .
        have P2: "P (final (run R m (R l) w1))" using "4.IH"(2) True Suc cb P1 by simp
        show ?thesis
        proof (cases "run R m (R l) w1")
          case (Inl ew)
          then show ?thesis using P2 True Suc cb by (cases ew) simp
        next
          case (Inr w2)
          have "P (log_event (End l) w2)" using P2 Inr by (simp add: T)
          then show ?thesis using "4.IH"(3) True Suc cb Inr by simp
        qed
      qed
    qed
  qed
qed

lemma run_invoke_invariant:
  assumes B: "\<And>x w w1 cs. P w \<Longrightarrow> begin_op x w = Inr (w1, cs) \<Longrightarrow> P w1"
      and T: "\<And>e w. P w \<Longrightarrow> bracket e \<Longrightarrow> P (log_event e w)"
      and C: "\<And>c w l w1. P w \<Longrightarrow> connected w c \<Longrightarrow> callback c w = Inr (l, w1) \<Longrightarrow> P w1"
  shows "P w \<Longrightarrow> P (final (run R n xs w))"
    and "P w \<Longrightarrow> P (final (invoke R n cs w))"
proof -
  have F: "\<And>x w. P w \<Longrightarrow> P (log_event (Call x) w)" by (rule T) simp_all
  have B': "\<And>x w w1 cs. P w \<Longrightarrow> begin_op x (log_event (Call x) w) = Inr (w1, cs) \<Longrightarrow> P w1"
    by (rule B[OF F])
  show "P w \<Longrightarrow> P (final (run R n xs w))"
    by (rule run_invoke_invariant_call(1)[where P = P]) (rule F B' T C; assumption)+
  show "P w \<Longrightarrow> P (final (invoke R n cs w))"
    by (rule run_invoke_invariant_call(2)[where P = P]) (rule F B' T C; assumption)+
qed

lemma run_wf: "wf_world w \<Longrightarrow> wf_world (final (run R n xs w))"
  and invoke_wf: "wf_world w \<Longrightarrow> wf_world (final (invoke R n cs w))"
proof -
  have B: "\<And>x w w1 cs. wf_world w \<Longrightarrow> begin_op x w = Inr (w1, cs) \<Longrightarrow> wf_world w1"
    by (rule wf_world_begin_op)
  have T: "\<And>e w. wf_world w \<Longrightarrow> bracket e \<Longrightarrow> wf_world (log_event e w)" by simp
  have C: "\<And>c w l w1. wf_world w \<Longrightarrow> connected w c \<Longrightarrow> callback c w = Inr (l, w1) \<Longrightarrow> wf_world w1"
    by (rule wf_world_callback)
  show "wf_world w \<Longrightarrow> wf_world (final (run R n xs w))"
    by (rule run_invoke_invariant(1)[where P = wf_world, OF B T C])
  show "wf_world w \<Longrightarrow> wf_world (final (invoke R n cs w))"
    by (rule run_invoke_invariant(2)[where P = wf_world, OF B T C])
qed

lemma begin_op_trace:
  assumes "begin_op x w = Inr (w1, cs)"
  shows "\<exists>es. trace w1 = trace w @ es \<and> (\<forall>e\<in>set es. \<not> fires e)"
  using assms
  by (cases x)
     (auto simp: construct_def enable_eq is_enabled_def when_enabled_future_def when_enabled_Inr
        new_listener_def destroy_listener_def destroy_feature_def set_value_def get_shared_future_def
        Let_def split: option.splits if_splits prod.splits)

lemma begin_op_conns:
  assumes "begin_op x w = Inr (w1, cs)"
  shows "length (conns w) \<le> length (conns w1)"
    and "c < length (conns w) \<Longrightarrow> connected w1 c \<Longrightarrow> connected w c"
    and "c < length (conns w) \<Longrightarrow> slot_of w1 c = slot_of w c"
  using assms
  by (cases x;
      auto simp: construct_def enable_eq is_enabled_def when_enabled_future_def when_enabled_Inr
        new_listener_def destroy_listener_def destroy_feature_def set_value_def get_shared_future_def
        slot_of_connect Let_def split: option.splits if_splits prod.splits)+

lemma new_events_self [simp]: "new_events w w = []"
  by (simp add: new_events_def)

lemma new_events_append: "trace w' = trace w @ es \<Longrightarrow> new_events w w' = es"
  by (simp add: new_events_def)

text \<open>A property of every event a run adds, given a state invariant.\<close>

lemma run_invoke_events:
  assumes B: "\<And>x w w1 cs. I w \<Longrightarrow> begin_op x w = Inr (w1, cs) \<Longrightarrow> I w1"
      and T: "\<And>e w. I w \<Longrightarrow> bracket e \<Longrightarrow> I (log_event e w)"
      and C: "\<And>c w l w1. I w \<Longrightarrow> connected w c \<Longrightarrow> callback c w = Inr (l, w1) \<Longrightarrow>
                I w1 \<and> (\<exists>es. trace w1 = trace w @ es \<and> (\<forall>e\<in>set es. Q e))"
      and Q: "\<And>e. \<not> fires e \<Longrightarrow> Q e"
  shows "I w \<Longrightarrow> I (final (run R n xs w)) \<and>
           (\<exists>es. trace (final (run R n xs w)) = trace w @ es \<and> (\<forall>e\<in>set es. Q e))"
    and "I w \<Longrightarrow> I (final (invoke R n cs w)) \<and>
           (\<exists>es. trace (final (invoke R n cs w)) = trace w @ es \<and> (\<forall>e\<in>set es. Q e))"
proof -
  let ?P = "\<lambda>w'. I w' \<and> (\<exists>es. trace w' = trace w @ es \<and> (\<forall>e\<in>set es. Q e))"
  have B': "\<And>x w w1 cs. ?P w \<Longrightarrow> begin_op x w = Inr (w1, cs) \<Longrightarrow> ?P w1"
  proof -
    fix x w' w1 cs assume p: "?P w'" and b: "begin_op x w' = Inr (w1, cs)"
    then obtain es where es: "trace w' = trace w @ es" "\<forall>e\<in>set es. Q e" by blast
    from begin_op_trace[OF b] obtain es' where es': "trace w1 = trace w' @ es'" "\<forall>e\<in>set es'. \<not> fires e"
      by blast
    have "\<forall>e\<in>set es'. Q e" using es'(2) Q by blast
    then have "trace w1 = trace w @ (es @ es') \<and> (\<forall>e\<in>set (es @ es'). Q e)"
      using es es'(1) by auto
    moreover have "I w1" using B p b by blast
    ultimately show "?P w1" by blast
  qed
  have T': "\<And>e w. ?P w \<Longrightarrow> bracket e \<Longrightarrow> ?P (log_event e w)"
  proof -
    fix e w' assume p: "?P w'" and b: "bracket e"
    then obtain es where es: "trace w' = trace w @ es" "\<forall>e\<in>set es. Q e" by blast
    have "Q e" using b by (intro Q) (cases e; simp)
    then have "trace (log_event e w') = trace w @ (es @ [e]) \<and> (\<forall>e\<in>set (es @ [e]). Q e)"
      using es by simp
    then show "?P (log_event e w')" using T p b by blast
  qed
  have C': "\<And>c w l w1. ?P w \<Longrightarrow> connected w c \<Longrightarrow> callback c w = Inr (l, w1) \<Longrightarrow> ?P w1"
  proof -
    fix c w' l w1 assume p: "?P w'" and c: "connected w' c" "callback c w' = Inr (l, w1)"
    then obtain es where es: "trace w' = trace w @ es" "\<forall>e\<in>set es. Q e" by blast
    from C[OF _ c] p obtain es' where es': "I w1" "trace w1 = trace w' @ es'" "\<forall>e\<in>set es'. Q e" by blast
    then have "trace w1 = trace w @ (es @ es') \<and> (\<forall>e\<in>set (es @ es'). Q e)"
      using es by auto
    then show "?P w1" using es' by blast
  qed
  have R1: "?P (final (run R n xs w'))" if "?P w'" for R n xs w'
  proof (rule run_invoke_invariant(1)[where P = ?P])
    show "?P w'" by (rule that)
  qed (rule B' T' C'; assumption)+
  have R2: "?P (final (invoke R n cs w'))" if "?P w'" for R n cs w'
  proof (rule run_invoke_invariant(2)[where P = ?P])
    show "?P w'" by (rule that)
  qed (rule B' T' C'; assumption)+
  show "I w \<Longrightarrow> I (final (run R n xs w)) \<and>
           (\<exists>es. trace (final (run R n xs w)) = trace w @ es \<and> (\<forall>e\<in>set es. Q e))"
    using R1[of w] by simp
  show "I w \<Longrightarrow> I (final (invoke R n cs w)) \<and>
           (\<exists>es. trace (final (invoke R n cs w)) = trace w @ es \<and> (\<forall>e\<in>set es. Q e))"
    using R2[of w] by simp
qed

lemma disconnect_twice [simp]: "disconnect c (disconnect c w) = disconnect c w"
  by (simp add: disconnect_def)

lemma new_events_trace_upd [simp]: "new_events w (w'\<lparr>trace := trace w @ es\<rparr>) = es"
  by (simp add: new_events_def)

text \<open>
  C6. Whenever the signal calls a listener's slot in a well-formed world, the callback
  enters \<^verbatim>\<open>on_enabled()\<close> in a world where the body is already disconnected and
  the listener has no connected body at all, so that destroying the handle from inside
  the reaction changes no connection; and in every run, complete or not, every entry of
  a reaction finds its listener without a live connection.
\<close>

theorem callback_severs_connection_first:
  assumes "wf_world w"
  shows "(\<forall>c. connected w c \<longrightarrow>
            (\<exists>w1. callback c w = Inr (slot_of w c, w1) \<and> \<not> connected w1 c \<and>
                  \<not> has_live w1 (slot_of w c) \<and>
                  new_events w w1 = [Slot c, Begin (slot_of w c) False] \<and>
                  (\<exists>w2. destroy_listener (slot_of w c) w1 = Inr (w2, []) \<and> conns w2 = conns w1))) \<and>
         (\<forall>R n xs l. Begin l True \<notin> set (new_events w (final (run R n xs w))))"
proof (intro conjI allI impI)
  fix c assume c: "connected w c"
  let ?l = "slot_of w c"
  let ?w1 = "(disconnect c w)\<lparr>trace := trace w @ [Slot c, Begin ?l False]\<rparr>"
  obtain L where L: "listeners w ?l = Some L" "l_conn L = Some c"
    using wf_world_conn[OF assms c] by blast
  have cb: "callback c w = Inr (?l, ?w1)" by (rule callback_wf[OF assms c])
  have "\<not> has_live ?w1 ?l"
    using wf_world_unique[OF assms c] by (auto simp: has_live_iff)
  moreover have "destroy_listener ?l ?w1 = Inr (?w1\<lparr>listeners := (listeners w)(?l := None)\<rparr>, [])"
    using L by (simp add: destroy_listener_def scoped_disconnect_def disconnect_def)
  ultimately show "\<exists>w1. callback c w = Inr (?l, w1) \<and> \<not> connected w1 c \<and> \<not> has_live w1 ?l \<and>
      new_events w w1 = [Slot c, Begin ?l False] \<and>
      (\<exists>w2. destroy_listener ?l w1 = Inr (w2, []) \<and> conns w2 = conns w1)"
    using cb by simp
next
  fix R n xs l
  have C: "\<And>c w l w1. wf_world w \<Longrightarrow> connected w c \<Longrightarrow> callback c w = Inr (l, w1) \<Longrightarrow>
             wf_world w1 \<and> (\<exists>es. trace w1 = trace w @ es \<and> (\<forall>e\<in>set es. \<forall>l. e \<noteq> Begin l True))"
    using callback_wf by (auto simp: wf_world_disconnect)
  have Q: "\<And>e. \<not> fires e \<Longrightarrow> \<forall>l. e \<noteq> Begin l True" by auto
  have "\<exists>es. trace (final (run R n xs w)) = trace w @ es \<and> (\<forall>e\<in>set es. \<forall>l. e \<noteq> Begin l True)"
    using run_invoke_events(1)[where I = wf_world and Q = "\<lambda>e. \<forall>l. e \<noteq> Begin l True",
        OF wf_world_begin_op _ C Q assms] by simp
  then show "Begin l True \<notin> set (new_events w (final (run R n xs w)))"
    by (auto simp: new_events_def)
qed

lemma three_waiting_eq:
  "three_waiting =
     \<lparr>features = (\<lambda>_. None)(0 \<mapsto> \<lparr>f_name = ''CDC'', f_enabled = False,
          f_pr = \<lparr>sp_available = False, sp_peers = []\<rparr>, f_s = [0, 1, 2],
          f_ctor_enabled = False, f_enable_calls = 0\<rparr>),
      listeners = (\<lambda>_. None)(3 \<mapsto> \<lparr>l_conn = None\<rparr>, 0 \<mapsto> \<lparr>l_conn = Some 0\<rparr>,
                    1 \<mapsto> \<lparr>l_conn = Some 1\<rparr>, 2 \<mapsto> \<lparr>l_conn = Some 2\<rparr>),
      conns = [\<lparr>c_slot = 0, c_connected = True\<rparr>, \<lparr>c_slot = 1, c_connected = True\<rparr>,
               \<lparr>c_slot = 2, c_connected = True\<rparr>],
      futures = [],
      trace = [Call (Construct 0 ''CDC'' False), Ret (Construct 0 ''CDC'' False),
               Call (NewListener 0), Ret (NewListener 0), Call (NewListener 1), Ret (NewListener 1),
               Call (NewListener 2), Ret (NewListener 2), Call (NewListener 3), Ret (NewListener 3),
               Call (WhenEnabled 0 0), Ret (WhenEnabled 0 0), Call (WhenEnabled 0 1), Ret (WhenEnabled 0 1),
               Call (WhenEnabled 0 2), Ret (WhenEnabled 0 2)]\<rparr>"
  by (simp add: three_waiting_def empty_world_def construct_def new_listener_def when_enabled_def
      connect_def set_connection_def scoped_disconnect_def log_event_def Let_def numeral_2_eq_2)

lemma wf_three_waiting: "wf_world three_waiting"
  unfolding three_waiting_def by (rule run_wf[OF wf_world_empty])


lemma three_waiting_connected:
  "connected three_waiting 0" "connected three_waiting 1" "connected three_waiting 2"
  "slot_of three_waiting 0 = 0" "slot_of three_waiting 1 = 1" "slot_of three_waiting 2 = 2"
  by (simp_all add: three_waiting_eq connected_def slot_of_def)

theorem callback_severs_connection_first_witness:
  "wf_world three_waiting \<and> connected three_waiting 1 \<and>
   (\<exists>w1. callback 1 three_waiting = Inr (1, w1) \<and> \<not> connected w1 1 \<and> \<not> has_live w1 1 \<and>
      new_events three_waiting w1 = [Slot 1, Begin 1 False] \<and>
      (\<exists>w2. destroy_listener 1 w1 = Inr (w2, []) \<and> conns w2 = conns w1)) \<and>
   Begin 1 True \<notin> set (new_events three_waiting (final (run (\<lambda>_. []) 1 [Enable 0] three_waiting)))"
  using callback_severs_connection_first[OF wf_three_waiting] wf_three_waiting
    three_waiting_connected(2,5)
  by metis

text \<open>A body that is disconnected stays disconnected and its slot is never called again.\<close>

lemma disconnected_for_ever:
  assumes "wf_world w" and "c0 < length (conns w)" and "\<not> connected w c0"
  shows "wf_world (final (run R n xs w)) \<and> c0 < length (conns (final (run R n xs w))) \<and>
           \<not> connected (final (run R n xs w)) c0 \<and>
           (\<exists>es. trace (final (run R n xs w)) = trace w @ es \<and> Slot c0 \<notin> set es)"
    and "wf_world (final (invoke R n cs w)) \<and> c0 < length (conns (final (invoke R n cs w))) \<and>
           \<not> connected (final (invoke R n cs w)) c0 \<and>
           (\<exists>es. trace (final (invoke R n cs w)) = trace w @ es \<and> Slot c0 \<notin> set es)"
proof -
  let ?I = "\<lambda>w. wf_world w \<and> c0 < length (conns w) \<and> \<not> connected w c0"
  let ?Q = "\<lambda>e. e \<noteq> Slot c0"
  have B: "\<And>x w w1 cs. ?I w \<Longrightarrow> begin_op x w = Inr (w1, cs) \<Longrightarrow> ?I w1"
    using wf_world_begin_op begin_op_conns(1,2) by (meson less_le_trans)
  have T: "\<And>e w. ?I w \<Longrightarrow> bracket e \<Longrightarrow> ?I (log_event e w)" by simp
  have C: "\<And>c w l w1. ?I w \<Longrightarrow> connected w c \<Longrightarrow> callback c w = Inr (l, w1) \<Longrightarrow>
             ?I w1 \<and> (\<exists>es. trace w1 = trace w @ es \<and> (\<forall>e\<in>set es. ?Q e))"
  proof -
    fix c w l w1 assume i: "?I w" and c: "connected w c" and cb: "callback c w = Inr (l, w1)"
    have "w1 = (disconnect c w)\<lparr>trace := trace w @ [Slot c, Begin (slot_of w c) False]\<rparr>"
      using callback_wf[of w c] i c cb by simp
    moreover have "c \<noteq> c0" using i c by auto
    ultimately show "?I w1 \<and> (\<exists>es. trace w1 = trace w @ es \<and> (\<forall>e\<in>set es. ?Q e))"
      using i by (simp add: wf_world_disconnect)
  qed
  have Q: "\<And>e. \<not> fires e \<Longrightarrow> ?Q e" by auto
  have i0: "?I w" using assms by simp
  have R1: "?I (final (run R n xs w)) \<and>
      (\<exists>es. trace (final (run R n xs w)) = trace w @ es \<and> (\<forall>e\<in>set es. ?Q e))"
  proof (rule run_invoke_events(1)[where I = ?I and Q = ?Q])
    show "?I w" by (rule i0)
  qed (rule B T C Q; assumption)+
  have R2: "?I (final (invoke R n cs w)) \<and>
      (\<exists>es. trace (final (invoke R n cs w)) = trace w @ es \<and> (\<forall>e\<in>set es. ?Q e))"
  proof (rule run_invoke_events(2)[where I = ?I and Q = ?Q])
    show "?I w" by (rule i0)
  qed (rule B T C Q; assumption)+
  show "wf_world (final (run R n xs w)) \<and> c0 < length (conns (final (run R n xs w))) \<and>
           \<not> connected (final (run R n xs w)) c0 \<and>
           (\<exists>es. trace (final (run R n xs w)) = trace w @ es \<and> Slot c0 \<notin> set es)"
    using R1 by blast
  show "wf_world (final (invoke R n cs w)) \<and> c0 < length (conns (final (invoke R n cs w))) \<and>
           \<not> connected (final (invoke R n cs w)) c0 \<and>
           (\<exists>es. trace (final (invoke R n cs w)) = trace w @ es \<and> Slot c0 \<notin> set es)"
    using R2 by blast
qed


lemma final_run_Cons:
  assumes "begin_op x (log_event (Call x) w) = Inr (w1, cs)"
  shows "final (run R n (x # xs) w) =
           (case invoke R n cs w1 of
              Inl ew \<Rightarrow> snd ew
            | Inr w2 \<Rightarrow> final (run R n xs (log_event (Ret x) w2)))"
  using assms by (auto simp: final_def split: sum.splits)

text \<open>
  C10. Registering a listener that already holds a connection, on the same or on
  another feature, disconnects the connection it held: in whatever follows (the rest
  of the call and any later calls, complete or not) the earlier body stays
  disconnected and its slot is never called, and the listener never has two connected
  bodies. When the feature is not enabled the call just stores the new connection.
\<close>

theorem reregistration_replaces_connection:
  assumes "wf_world w" and "features w g = Some f" and "listeners w l = Some L"
      and "l_conn L = Some c0"
  shows "(let w' = final (run R n (WhenEnabled g l # ys) w)
          in \<not> connected w' c0 \<and> Slot c0 \<notin> set (new_events w w') \<and>
             (\<forall>c c'. connected w' c \<and> slot_of w' c = l \<and> connected w' c' \<and> slot_of w' c' = l
                     \<longrightarrow> c = c')) \<and>
         (\<not> f_enabled f \<longrightarrow>
            (\<exists>w1. run R n [WhenEnabled g l] w = Inr w1 \<and>
               connected w1 (length (conns w)) \<and> slot_of w1 (length (conns w)) = l \<and>
               listeners w1 l = Some (L\<lparr>l_conn := Some (length (conns w))\<rparr>) \<and>
               new_events w w1 = [Call (WhenEnabled g l), Ret (WhenEnabled g l)]))"
proof (intro conjI impI)
  let ?x = "WhenEnabled g l"
  let ?w0 = "log_event (Call ?x) w"
  let ?w1 = "set_connection l L (length (conns w)) (snd (connect g f l ?w0))"
  let ?cs = "if f_enabled f then f_s f @ [length (conns w)] else []"
  have b: "begin_op ?x ?w0 = Inr (?w1, ?cs)"
    using assms by (simp add: when_enabled_Inr)
  have c0: "c0 < length (conns w)" by (rule wf_world_l_conn[OF assms(1,3,4)])
  have wf1: "wf_world ?w1" using wf_world_begin_op[OF _ b] assms(1) by simp
  have i1: "c0 < length (conns ?w1)" "\<not> connected ?w1 c0" using c0 assms(4) by simp_all
  have tr1: "trace ?w1 = trace w @ [Call ?x]" by simp
  let ?w' = "final (run R n (?x # ys) w)"
  have main: "wf_world ?w' \<and> \<not> connected ?w' c0 \<and> (\<exists>es. trace ?w' = trace w @ es \<and> Slot c0 \<notin> set es)"
  proof (cases "invoke R n ?cs ?w1")
    case (Inl ew)
    then have "?w' = final (invoke R n ?cs ?w1)"
      using final_run_Cons[OF b, of R n ys] by (cases ew) simp
    then show ?thesis
      using disconnected_for_ever(2)[OF wf1 i1, of R n ?cs] tr1 by auto
  next
    case (Inr w2)
    then have w': "?w' = final (run R n ys (log_event (Ret ?x) w2))"
      using final_run_Cons[OF b, of R n ys] by simp
    from disconnected_for_ever(2)[OF wf1 i1, of R n ?cs] Inr obtain es where
      i2: "wf_world w2" "c0 < length (conns w2)" "\<not> connected w2 c0" and
      es: "trace w2 = trace ?w1 @ es" "Slot c0 \<notin> set es"
      by auto
    have "wf_world (log_event (Ret ?x) w2)" "c0 < length (conns (log_event (Ret ?x) w2))"
      "\<not> connected (log_event (Ret ?x) w2) c0"
      using i2 by simp_all
    from disconnected_for_ever(1)[OF this, of R n ys] obtain es' where
      "wf_world ?w'" "\<not> connected ?w' c0" "trace ?w' = trace (log_event (Ret ?x) w2) @ es'"
      "Slot c0 \<notin> set es'"
      unfolding w' by blast
    then show ?thesis using es tr1 by auto
  qed
  then have d: "\<not> connected ?w' c0" "Slot c0 \<notin> set (new_events w ?w')"
    and u: "\<forall>c c'. connected ?w' c \<and> slot_of ?w' c = l \<and> connected ?w' c' \<and> slot_of ?w' c' = l \<longrightarrow> c = c'"
    using wf_world_unique[of ?w'] by (auto simp: new_events_def)
  show "let w' = final (run R n (WhenEnabled g l # ys) w)
          in \<not> connected w' c0 \<and> Slot c0 \<notin> set (new_events w w') \<and>
             (\<forall>c c'. connected w' c \<and> slot_of w' c = l \<and> connected w' c' \<and> slot_of w' c' = l
                     \<longrightarrow> c = c')"
    unfolding Let_def using d u by blast
next
  let ?x = "WhenEnabled g l"
  let ?w0 = "log_event (Call ?x) w"
  let ?w1 = "set_connection l L (length (conns w)) (snd (connect g f l ?w0))"
  assume ne: "\<not> f_enabled f"
  have "begin_op ?x ?w0 = Inr (?w1, [])"
    using assms ne by (simp add: when_enabled_Inr)
  then have "run R n [?x] w = Inr (log_event (Ret ?x) ?w1)" by simp
  moreover have "l_conn L \<noteq> Some (length (conns w))"
    using wf_world_l_conn[OF assms(1,3,4)] assms(4) by simp
  ultimately show "\<exists>w1. run R n [WhenEnabled g l] w = Inr w1 \<and>
               connected w1 (length (conns w)) \<and> slot_of w1 (length (conns w)) = l \<and>
               listeners w1 l = Some (L\<lparr>l_conn := Some (length (conns w))\<rparr>) \<and>
               new_events w w1 = [Call (WhenEnabled g l), Ret (WhenEnabled g l)]"
    by (simp add: new_events_def slot_of_connect)
qed


lemma three_waiting_fields:
  "features three_waiting 0 = Some \<lparr>f_name = ''CDC'', f_enabled = False,
      f_pr = \<lparr>sp_available = False, sp_peers = []\<rparr>, f_s = [0, 1, 2],
      f_ctor_enabled = False, f_enable_calls = 0\<rparr>"
  "listeners three_waiting 0 = Some \<lparr>l_conn = Some 0\<rparr>"
  "listeners three_waiting 1 = Some \<lparr>l_conn = Some 1\<rparr>"
  "listeners three_waiting 2 = Some \<lparr>l_conn = Some 2\<rparr>"
  "length (conns three_waiting) = 3"
  "listeners three_waiting 3 = Some \<lparr>l_conn = None\<rparr>"
  by (simp_all add: three_waiting_eq)

theorem reregistration_replaces_connection_witness:
  "wf_world three_waiting \<and> listeners three_waiting 1 = Some \<lparr>l_conn = Some 1\<rparr> \<and>
   connected three_waiting 1 \<and>
   \<not> connected (final (run (\<lambda>_. []) 1 [WhenEnabled 0 1, Enable 0] three_waiting)) 1 \<and>
   Slot 1 \<notin> set (new_events three_waiting
                    (final (run (\<lambda>_. []) 1 [WhenEnabled 0 1, Enable 0] three_waiting))) \<and>
   (\<exists>w1. run (\<lambda>_. []) 1 [WhenEnabled 0 1] three_waiting = Inr w1 \<and> connected w1 3 \<and>
      slot_of w1 3 = 1 \<and> listeners w1 1 = Some \<lparr>l_conn = Some 3\<rparr> \<and>
      new_events three_waiting w1 = [Call (WhenEnabled 0 1), Ret (WhenEnabled 0 1)])"
proof -
  note t = reregistration_replaces_connection[OF wf_three_waiting three_waiting_fields(1,3),
      of 1 "\<lambda>_. []" 1]
  have a: "\<not> connected (final (run (\<lambda>_. []) 1 [WhenEnabled 0 1, Enable 0] three_waiting)) 1 \<and>
     Slot 1 \<notin> set (new_events three_waiting
                    (final (run (\<lambda>_. []) 1 [WhenEnabled 0 1, Enable 0] three_waiting)))"
    using t[of "[Enable 0]"] by (simp add: Let_def)
  have b: "\<exists>w1. run (\<lambda>_. []) 1 [WhenEnabled 0 1] three_waiting = Inr w1 \<and> connected w1 3 \<and>
      slot_of w1 3 = 1 \<and> listeners w1 1 = Some \<lparr>l_conn = Some 3\<rparr> \<and>
      new_events three_waiting w1 = [Call (WhenEnabled 0 1), Ret (WhenEnabled 0 1)]"
    using t[of "[]"] by (simp add: three_waiting_fields(5))
  show ?thesis
    using a b wf_three_waiting three_waiting_fields(3) three_waiting_connected(2) by blast
qed

lemma view_features: "features w' = features w \<Longrightarrow> view w' = view w"
  by (simp add: view_def fun_eq_iff)

lemma view_simps [simp]:
  "view (log_event e w) = view w"
  "view (disconnect c w) = view w"
  "view (fold disconnect cs w) = view w"
  "view (w\<lparr>trace := tr\<rparr>) = view w"
  "view (w\<lparr>conns := cn\<rparr>) = view w"
  "view (w\<lparr>listeners := ls\<rparr>) = view w"
  by (simp_all add: view_def fun_eq_iff)

lemma view_cases:
  assumes "view w' = view w"
  shows "(features w' g = None \<and> features w g = None) \<or>
         (\<exists>f' f. features w' g = Some f' \<and> features w g = Some f \<and> f_enabled f' = f_enabled f \<and>
            sp_available (f_pr f') = sp_available (f_pr f))"
proof -
  have "view w' g = view w g" using assms by simp
  then show ?thesis
    by (cases "features w' g"; cases "features w g") (auto simp: view_def)
qed

lemma saw_view: "view w' = view w \<Longrightarrow> saw w' x = saw w x"
proof (cases x)
  case (IsEnabled g)
  assume "view w' = view w"
  from view_cases[OF this, of g] IsEnabled show ?thesis by auto
qed simp_all

lemma observes_view: "view w' = view w \<Longrightarrow> observes w' x = observes w x"
proof (cases x)
  case (IsEnabled g)
  assume "view w' = view w"
  from view_cases[OF this, of g] IsEnabled show ?thesis by auto
qed simp_all

lemma saw_view_fun: "view w' = view w \<Longrightarrow> saw w' = saw w"
  by (rule ext) (rule saw_view)

lemma observes_view_fun: "view w' = view w \<Longrightarrow> observes w' = observes w"
  by (rule ext) (rule observes_view)

lemma quiet_view: "view w' = view w \<Longrightarrow> quiet R w' l = quiet R w l"
  by (simp add: quiet_def observes_view_fun[of w' w])

lemma fire_events_view:
  "view w' = view w \<Longrightarrow> slot_of w' c = slot_of w c \<Longrightarrow> fire_events R w' c = fire_events R w c"
  by (simp add: fire_events_def saw_view_fun[of w' w])

lemma world_eqI:
  fixes w w' :: world
  assumes "features w = features w'" "listeners w = listeners w'" "conns w = conns w'"
    "futures w = futures w'" "trace w = trace w'"
  shows "w = w'"
  using assms by (cases w; cases w') simp

lemma run_quiet:
  "list_all (observes w) xs \<Longrightarrow> run R n xs w = Inr (w\<lparr>trace := trace w @ concat (map (saw w) xs)\<rparr>)"
proof (induction xs arbitrary: w)
  case Nil
  then show ?case by simp
next
  case (Cons x xs)
  from Cons.prems obtain g f where x: "x = IsEnabled g" and f: "features w g = Some f"
    by (cases x) auto
  let ?w1 = "log_event (Ret x) (log_event (Saw g (f_enabled f) (sp_available (f_pr f))) (log_event (Call x) w))"
  have v: "view ?w1 = view w" by simp
  have "list_all (observes ?w1) xs"
    using Cons.prems by (simp add: observes_view_fun[OF v])
  from Cons.IH[OF this] have ih: "run R n xs ?w1 = Inr (?w1\<lparr>trace := trace ?w1 @ concat (map (saw w) xs)\<rparr>)"
    by (simp add: saw_view_fun[OF v])
  have r: "run R n (x # xs) w = run R n xs ?w1"
    using x f by (simp add: is_enabled_def)
  have e: "?w1\<lparr>trace := trace ?w1 @ concat (map (saw w) xs)\<rparr> =
           w\<lparr>trace := trace w @ concat (map (saw w) (x # xs))\<rparr>"
  proof (rule world_eqI)
    show "trace (?w1\<lparr>trace := trace ?w1 @ concat (map (saw w) xs)\<rparr>) =
          trace (w\<lparr>trace := trace w @ concat (map (saw w) (x # xs))\<rparr>)"
      by (simp add: x f)
  qed simp_all
  have "run R n (x # xs) w = Inr (?w1\<lparr>trace := trace ?w1 @ concat (map (saw w) xs)\<rparr>)"
    by (simp only: r ih)
  then show ?case by (simp only: e)
qed


lemma disconnect_not_connected: "\<not> connected w c \<Longrightarrow> disconnect c w = w"
  by (rule world_eqI) (auto simp: disconnect_def connected_def list_update_same_conv)

lemma disconnect_trace_upd [simp]: "disconnect c (w\<lparr>trace := t\<rparr>) = (disconnect c w)\<lparr>trace := t\<rparr>"
  by (simp add: disconnect_def)

lemma fold_disconnect_trace_upd [simp]:
  "fold disconnect cs (w\<lparr>trace := t\<rparr>) = (fold disconnect cs w)\<lparr>trace := t\<rparr>"
  by (induction cs arbitrary: w) simp_all

lemma invoke_quiet:
  assumes "wf_world w" and "distinct cs"
      and "\<forall>c\<in>set cs. connected w c \<longrightarrow> quiet R w (slot_of w c)"
  shows "invoke R (Suc n) cs w =
           Inr ((fold disconnect cs w)\<lparr>trace := trace w @ concat (map (fire_events R w) (filter (connected w) cs))\<rparr>)"
  using assms
proof (induction cs arbitrary: w)
  case Nil
  then show ?case by simp
next
  case (Cons c cs)
  show ?case
  proof (cases "connected w c")
    case False
    have "invoke R (Suc n) (c # cs) w = invoke R (Suc n) cs w" using False by simp
    also have "\<dots> = Inr ((fold disconnect cs w)\<lparr>trace := trace w @
        concat (map (fire_events R w) (filter (connected w) cs))\<rparr>)"
      using Cons.prems by (intro Cons.IH) auto
    finally show ?thesis using False by (simp add: disconnect_not_connected)
  next
    case True
    let ?l = "slot_of w c"
    let ?w1 = "(disconnect c w)\<lparr>trace := trace w @ [Slot c, Begin ?l False]\<rparr>"
    let ?w2 = "?w1\<lparr>trace := trace ?w1 @ concat (map (saw ?w1) (R ?l))\<rparr>"
    let ?w3 = "(disconnect c w)\<lparr>trace := trace w @ fire_events R w c\<rparr>"
    have cb: "callback c w = Inr (?l, ?w1)" by (rule callback_wf[OF Cons.prems(1) True])
    have v1: "view ?w1 = view w" by simp
    have "list_all (observes ?w1) (R ?l)"
      using Cons.prems(3) True by (simp add: quiet_def observes_view_fun[OF v1])
    then have r: "run R n (R ?l) ?w1 = Inr ?w2" by (rule run_quiet)
    have w3: "log_event (End ?l) ?w2 = ?w3"
      by (rule world_eqI) (simp_all add: fire_events_def saw_view_fun[OF v1])
    have step: "invoke R (Suc n) (c # cs) w = invoke R (Suc n) cs ?w3"
      using True cb r w3 by simp
    have wf3: "wf_world ?w3" using Cons.prems(1) by (simp add: wf_world_disconnect)
    have v3: "view ?w3 = view w" by simp
    have c3: "connected ?w3 c' = (connected w c' \<and> c' \<noteq> c)" for c' by simp
    have s3: "slot_of ?w3 c' = slot_of w c'" for c' by simp
    have q3: "\<forall>c'\<in>set cs. connected ?w3 c' \<longrightarrow> quiet R ?w3 (slot_of ?w3 c')"
      using Cons.prems(3) by (simp add: quiet_view[OF v3])
    have ih: "invoke R (Suc n) cs ?w3 =
        Inr ((fold disconnect cs ?w3)\<lparr>trace := trace ?w3 @
          concat (map (fire_events R ?w3) (filter (connected ?w3) cs))\<rparr>)"
      using Cons.prems(2) by (intro Cons.IH[OF wf3 _ q3]) simp
    have f3: "filter (connected ?w3) cs = filter (connected w) cs"
      using Cons.prems(2) by (intro filter_cong) (auto simp: c3)
    have e3: "map (fire_events R ?w3) xs = map (fire_events R w) xs" for xs
      by (intro map_cong refl fire_events_view[OF v3 s3])
    have "(fold disconnect cs ?w3)\<lparr>trace := trace ?w3 @
          concat (map (fire_events R ?w3) (filter (connected ?w3) cs))\<rparr> =
        (fold disconnect (c # cs) w)\<lparr>trace := trace w @
          concat (map (fire_events R w) (filter (connected w) (c # cs)))\<rparr>"
      unfolding f3 e3 using True by (intro world_eqI) simp_all
    then show ?thesis using step ih by simp
  qed
qed

lemma view_connect [simp]: "features w g = Some f \<Longrightarrow> view (snd (connect g f l w)) = view w"
  by (auto simp: view_def fun_eq_iff)

lemma view_set_connection [simp]: "view (set_connection l L c w) = view w"
  by (rule view_features) simp

lemma view_scoped_disconnect [simp]: "view (scoped_disconnect co w) = view w"
  by (rule view_features) simp

text \<open>Registration on an enabled feature, when the listeners that are still connected
  and the registrant are quiet: the whole signal is invoked.\<close>

lemma when_enabled_fires:
  assumes wf: "wf_world w" and f: "features w g = Some f" and en: "f_enabled f"
      and L: "listeners w l = Some L" and ql: "quiet R w l"
      and qs: "\<forall>c\<in>set (f_s f). connected w c \<longrightarrow> quiet R w (slot_of w c)"
  defines "c \<equiv> length (conns w)"
  shows "\<exists>w'. run R (Suc n) [WhenEnabled g l] w = Inr w' \<and> wf_world w' \<and> view w' = view w \<and>
           features w' = (features w)(g \<mapsto> f\<lparr>f_s := f_s f @ [c]\<rparr>) \<and>
           listeners w' = (listeners w)(l \<mapsto> L\<lparr>l_conn := Some c\<rparr>) \<and>
           futures w' = futures w \<and>
           length (conns w') = Suc c \<and>
           (\<forall>c'. connected w' c' = (connected w c' \<and> c' \<notin> set (f_s f) \<and> l_conn L \<noteq> Some c')) \<and>
           (\<forall>c'<c. slot_of w' c' = slot_of w c') \<and> slot_of w' c = l \<and>
           trace w' = trace w @
             Call (WhenEnabled g l) #
             concat (map (fire_events R w) (filter (\<lambda>c'. connected w c' \<and> l_conn L \<noteq> Some c') (f_s f))) @
             [Slot c, Begin l False] @ concat (map (saw w) (R l)) @ [End l, Ret (WhenEnabled g l)]"
proof -
  let ?x = "WhenEnabled g l"
  let ?w0 = "log_event (Call ?x) w"
  let ?w1 = "set_connection l L c (snd (connect g f l ?w0))"
  let ?cs = "f_s f @ [c]"
  have b: "begin_op ?x ?w0 = Inr (?w1, ?cs)"
    using f L en by (simp add: when_enabled_Inr c_def)
  have wf1: "wf_world ?w1" using wf_world_begin_op[OF _ b] wf by simp
  have lt: "\<forall>c'\<in>set (f_s f). c' < c" and d: "distinct (f_s f)"
    using wf_world_f_s[OF wf f] by (auto simp: c_def)
  then have dcs: "distinct ?cs" by auto
  have v1: "view ?w1 = view w" using f by simp
  have s0: "slot_of (snd (connect g f l ?w0)) c' = slot_of w c'" if "c' < c" for c'
    using that by (simp add: slot_of_connect c_def)
  have sc0: "slot_of (snd (connect g f l ?w0)) c = l" by (simp add: slot_of_connect c_def)
  have s1: "slot_of ?w1 c' = slot_of w c'" if "c' < c" for c'
    using that s0 by simp
  have sc: "slot_of ?w1 c = l" using sc0 by simp
  have c1: "connected ?w1 c' = ((connected w c' \<or> c' = c) \<and> l_conn L \<noteq> Some c')" for c'
    by (simp add: c_def)
  have lc: "l_conn L \<noteq> Some c" using wf_world_l_conn[OF wf L] by (auto simp: c_def)
  have q1: "\<forall>c'\<in>set ?cs. connected ?w1 c' \<longrightarrow> quiet R ?w1 (slot_of ?w1 c')"
  proof (intro ballI impI)
    fix c' assume m: "c' \<in> set ?cs" and k: "connected ?w1 c'"
    show "quiet R ?w1 (slot_of ?w1 c')"
    proof (cases "c' = c")
      case True
      then show ?thesis using ql sc by (simp only: quiet_view[OF v1])
    next
      case False
      then have "c' \<in> set (f_s f)" "connected w c'" using m k c1 by auto
      then have "quiet R w (slot_of w c')" "c' < c" using qs lt by auto
      then show ?thesis using s1 by (simp only: quiet_view[OF v1])
    qed
  qed
  let ?w2 = "(fold disconnect ?cs ?w1)\<lparr>trace := trace ?w1 @
      concat (map (fire_events R ?w1) (filter (connected ?w1) ?cs))\<rparr>"
  have inv: "invoke R (Suc n) ?cs ?w1 = Inr ?w2"
    by (rule invoke_quiet[OF wf1 dcs q1])
  let ?w' = "log_event (Ret ?x) ?w2"
  have r: "run R (Suc n) [?x] w = Inr ?w'" using b inv by simp
  have wf': "wf_world ?w'" using run_wf[OF wf, of R "Suc n" "[?x]"] r by simp
  have fl: "filter (connected ?w1) ?cs = filter (\<lambda>c'. connected w c' \<and> l_conn L \<noteq> Some c') (f_s f) @ [c]"
  proof -
    have "filter (connected ?w1) (f_s f) = filter (\<lambda>c'. connected w c' \<and> l_conn L \<noteq> Some c') (f_s f)"
    proof (intro filter_cong refl)
      fix c' assume "c' \<in> set (f_s f)"
      then have "c' \<noteq> c" using lt by auto
      then show "connected ?w1 c' = (connected w c' \<and> l_conn L \<noteq> Some c')"
        unfolding c1 by simp
    qed
    moreover have "connected ?w1 c" unfolding c1 using lc by simp
    ultimately show ?thesis by (simp only: filter_append filter.simps if_True)
  qed
  have fe: "map (fire_events R ?w1) (filter P (f_s f)) = map (fire_events R w) (filter P (f_s f))" for P
    using lt by (intro map_cong refl fire_events_view[OF v1 s1]) auto
  have fc: "fire_events R ?w1 c = [Slot c, Begin l False] @ concat (map (saw w) (R l)) @ [End l]"
    by (simp add: fire_events_def sc0 saw_view_fun[OF v1])
  have tr: "trace ?w' = trace w @
             Call ?x #
             concat (map (fire_events R w) (filter (\<lambda>c'. connected w c' \<and> l_conn L \<noteq> Some c') (f_s f))) @
             [Slot c, Begin l False] @ concat (map (saw w) (R l)) @ [End l, Ret ?x]"
  proof -
    define es where "es = concat (map (fire_events R ?w1) (filter (connected ?w1) ?cs))"
    have "es = concat (map (fire_events R w) (filter (\<lambda>c'. connected w c' \<and> l_conn L \<noteq> Some c') (f_s f))) @
               fire_events R ?w1 c"
      unfolding es_def by (simp only: fl map_append concat_append fe list.map concat.simps append_Nil2)
    then have e: "es = concat (map (fire_events R w) (filter (\<lambda>c'. connected w c' \<and> l_conn L \<noteq> Some c') (f_s f))) @
               [Slot c, Begin l False] @ concat (map (saw w) (R l)) @ [End l]"
      by (simp only: fc)
    have "trace ?w' = trace w @ Call ?x # es @ [Ret ?x]"
      unfolding es_def by simp
    then show ?thesis unfolding e by simp
  qed
  have co: "connected ?w' c' = (connected w c' \<and> c' \<notin> set (f_s f) \<and> l_conn L \<noteq> Some c')" for c'
    using lc by (auto simp: c_def dest: connected_less)
  have sl: "\<forall>c'<c. slot_of ?w' c' = slot_of w c'" "slot_of ?w' c = l"
    by (simp_all add: s0 sc0)
  have "view ?w' = view w" using f by simp
  moreover have "features ?w' = (features w)(g \<mapsto> f\<lparr>f_s := f_s f @ [c]\<rparr>)" by (simp add: c_def)
  moreover have "listeners ?w' = (listeners w)(l \<mapsto> L\<lparr>l_conn := Some c\<rparr>)" by simp
  moreover have "futures ?w' = futures w" by simp
  moreover have "length (conns ?w') = Suc c" by (simp add: c_def)
  ultimately show ?thesis using r wf' tr co sl by blast
qed


lemma broadcasting_eq:
  "broadcasting = three_waiting\<lparr>features := (\<lambda>_. None)(0 \<mapsto> \<lparr>f_name = ''CDC'', f_enabled = True,
          f_pr = \<lparr>sp_available = True, sp_peers = []\<rparr>, f_s = [0, 1, 2],
          f_ctor_enabled = False, f_enable_calls = 1\<rparr>),
      trace := trace three_waiting @ [Flagged 0, Resolved 0 True]\<rparr>"
  by (simp add: broadcasting_def enable_eq three_waiting_fields set_value_def mark_def three_waiting_eq)


lemma all_fired_eq:
  "all_fired = \<lparr>features = (\<lambda>_. None)(0 \<mapsto> \<lparr>f_name = ''CDC'', f_enabled = True,
          f_pr = \<lparr>sp_available = True, sp_peers = []\<rparr>, f_s = [0, 1, 2],
          f_ctor_enabled = False, f_enable_calls = 1\<rparr>),
      listeners = listeners three_waiting,
      conns = [\<lparr>c_slot = 0, c_connected = False\<rparr>, \<lparr>c_slot = 1, c_connected = False\<rparr>,
               \<lparr>c_slot = 2, c_connected = False\<rparr>],
      futures = [],
      trace = trace three_waiting @
        [Call (Enable 0), Flagged 0, Resolved 0 True, Slot 0, Begin 0 False, End 0,
         Slot 1, Begin 1 False, End 1, Slot 2, Begin 2 False, End 2, Ret (Enable 0)]\<rparr>"
  by (simp add: all_fired_def three_waiting_eq enable_eq set_value_def mark_def connected_def
      callback_def slot_of_def scoped_disconnect_def disconnect_def has_live_def log_event_def
      Let_def numeral_2_eq_2)


lemma Slot_saw [simp]: "Slot c \<notin> set (saw w x)"
  by (cases x) (auto split: option.splits)

lemma Slot_fire_events [simp]: "Slot c \<in> set (fire_events R w c') \<longleftrightarrow> c = c'"
  by (auto simp: fire_events_def)




lemma begin_op_listeners_None:
  assumes "begin_op x' w = Inr (w1, cs)" and "listeners w x = None" and "x' \<noteq> NewListener x"
  shows "listeners w1 x = None"
  using assms
  by (cases x')
     (auto simp: construct_def enable_eq is_enabled_def when_enabled_future_def when_enabled_Inr
        new_listener_def destroy_listener_def destroy_feature_def set_value_def get_shared_future_def
        Let_def split: option.splits if_splits prod.splits)

text \<open>The reaction of a listener that does not exist never runs, unless a listener is
  constructed again at its place.\<close>

lemma destroyed_never_runs:
  assumes "wf_world w" and "listeners w x = None"
  shows "\<exists>es. trace (final (run R n ys w)) = trace w @ es \<and>
           (Call (NewListener x) \<in> set es \<or> (\<forall>b. Begin x b \<notin> set es))"
proof -
  let ?P = "\<lambda>w'. wf_world w' \<and> (\<exists>es. trace w' = trace w @ es \<and>
      (Call (NewListener x) \<in> set es \<or> (listeners w' x = None \<and> (\<forall>b. Begin x b \<notin> set es))))"
  have F: "?P (log_event (Call x') w')" if "?P w'" for x' w'
  proof -
    from that obtain es where es: "trace w' = trace w @ es"
      "Call (NewListener x) \<in> set es \<or> (listeners w' x = None \<and> (\<forall>b. Begin x b \<notin> set es))"
      by blast
    then have "trace (log_event (Call x') w') = trace w @ (es @ [Call x'])"
      "Call (NewListener x) \<in> set (es @ [Call x']) \<or>
         (listeners (log_event (Call x') w') x = None \<and> (\<forall>b. Begin x b \<notin> set (es @ [Call x'])))"
      by auto
    then show ?thesis using that by (metis wf_world_log_event)
  qed
  have B: "?P w1" if p: "?P w'" and b: "begin_op x' (log_event (Call x') w') = Inr (w1, cs)" for x' w' w1 cs
  proof -
    from p obtain es where es: "trace w' = trace w @ es"
      "Call (NewListener x) \<in> set es \<or> (listeners w' x = None \<and> (\<forall>b. Begin x b \<notin> set es))"
      by blast
    from begin_op_trace[OF b] obtain es' where es': "trace w1 = trace (log_event (Call x') w') @ es'"
      "\<forall>e\<in>set es'. \<not> fires e" by blast
    have wf1: "wf_world w1" using wf_world_begin_op[OF _ b] p by simp
    have t1: "trace w1 = trace w @ (es @ Call x' # es')" using es(1) es'(1) by simp
    have nb: "\<forall>b. Begin x b \<notin> set es'" using es'(2) by auto
    show ?thesis
    proof (cases "Call (NewListener x) \<in> set es \<or> x' = NewListener x")
      case True
      then have "Call (NewListener x) \<in> set (es @ Call x' # es')" by auto
      then show ?thesis using wf1 t1 by blast
    next
      case False
      then have "listeners w' x = None" "\<forall>b. Begin x b \<notin> set es" "x' \<noteq> NewListener x"
        using es(2) by auto
      then have "listeners w1 x = None" "\<forall>b. Begin x b \<notin> set (es @ Call x' # es')"
        using begin_op_listeners_None[OF b] nb by auto
      then show ?thesis using wf1 t1 by blast
    qed
  qed
  have T: "?P (log_event e w')" if p: "?P w'" and e: "bracket e" for e w'
  proof -
    from p obtain es where es: "trace w' = trace w @ es"
      "Call (NewListener x) \<in> set es \<or> (listeners w' x = None \<and> (\<forall>b. Begin x b \<notin> set es))"
      by blast
    have "\<forall>b. e \<noteq> Begin x b" using e by auto
    then have "trace (log_event e w') = trace w @ (es @ [e])"
      "Call (NewListener x) \<in> set (es @ [e]) \<or>
         (listeners (log_event e w') x = None \<and> (\<forall>b. Begin x b \<notin> set (es @ [e])))"
      using es by auto
    then show ?thesis using p by (metis wf_world_log_event)
  qed
  have C: "?P w1" if p: "?P w'" and c: "connected w' c" and cb: "callback c w' = Inr (l, w1)" for c w' l w1
  proof -
    from p obtain es where es: "trace w' = trace w @ es"
      "Call (NewListener x) \<in> set es \<or> (listeners w' x = None \<and> (\<forall>b. Begin x b \<notin> set es))"
      and wf': "wf_world w'"
      by blast
    have w1: "w1 = (disconnect c w')\<lparr>trace := trace w' @ [Slot c, Begin (slot_of w' c) False]\<rparr>"
      using callback_wf[OF wf' c] cb by simp
    have wf1: "wf_world w1" using wf' by (simp add: w1 wf_world_disconnect)
    have t1: "trace w1 = trace w @ (es @ [Slot c, Begin (slot_of w' c) False])"
      using es(1) by (simp add: w1)
    have "listeners w' x = None \<Longrightarrow> slot_of w' c \<noteq> x"
      using wf_world_conn[OF wf' c] by auto
    then have "Call (NewListener x) \<in> set (es @ [Slot c, Begin (slot_of w' c) False]) \<or>
        (listeners w1 x = None \<and> (\<forall>b. Begin x b \<notin> set (es @ [Slot c, Begin (slot_of w' c) False])))"
      using es(2) by (auto simp: w1)
    then show ?thesis using wf1 t1 by blast
  qed
  have "?P (final (run R n ys w))"
  proof (rule run_invoke_invariant_call(1)[where P = ?P])
    show "?P w" using assms by simp
  qed (rule F B T C; assumption)+
  then show ?thesis by blast
qed


text \<open>
  C7. Destroying a listener whose body is still connected to a signal: the destructor
  returns, with any fuel and whatever the reactions are; it changes no feature, no
  future and no other listener, and disconnects this one body only. In whatever runs
  from then on the body's slot is never called, and the listener's reaction never runs
  (unless a new listener is constructed at the same place). A later invocation of the
  signal, as the transition makes it, calls the slots of exactly the other connected
  bodies, in connection order.
\<close>

theorem destroying_unfired_listener_cancels:
  assumes wf: "wf_world w" and f: "features w g = Some f"
      and L: "listeners w x = Some L" and lc: "l_conn L = Some c"
      and co: "connected w c" and m: "c \<in> set (f_s f)"
      and qs: "\<forall>c'\<in>set (f_s f). connected w c' \<longrightarrow> c' \<noteq> c \<longrightarrow> quiet R w (slot_of w c')"
  shows "\<exists>w1. run R n [DestroyListener x] w = Inr w1 \<and>
           new_events w w1 = [Call (DestroyListener x), Ret (DestroyListener x)] \<and>
           features w1 = features w \<and> futures w1 = futures w \<and>
           listeners w1 = (listeners w)(x := None) \<and>
           (\<forall>c'. connected w1 c' = (connected w c' \<and> c' \<noteq> c)) \<and>
           (\<forall>c'. slot_of w1 c' = slot_of w c') \<and>
           (\<forall>R' n' ys. Slot c \<notin> set (new_events w1 (final (run R' n' ys w1))) \<and>
              (Call (NewListener x) \<in> set (new_events w1 (final (run R' n' ys w1))) \<or>
               (\<forall>b. Begin x b \<notin> set (new_events w1 (final (run R' n' ys w1)))))) \<and>
           (\<exists>w2. invoke R (Suc k) (f_s f) w1 = Inr w2 \<and>
              new_events w1 w2 =
                concat (map (fire_events R w) (filter (\<lambda>c'. connected w c' \<and> c' \<noteq> c) (f_s f))))"
proof -
  let ?x = "DestroyListener x"
  let ?w1 = "log_event (Ret ?x) ((disconnect c (log_event (Call ?x) w))\<lparr>listeners := (listeners w)(x := None)\<rparr>)"
  have b: "begin_op ?x (log_event (Call ?x) w) =
      Inr ((disconnect c (log_event (Call ?x) w))\<lparr>listeners := (listeners w)(x := None)\<rparr>, [])"
    using L lc by (simp add: destroy_listener_def scoped_disconnect_def)
  then have r: "run R n [?x] w = Inr ?w1" by simp
  have wf1: "wf_world ?w1" using run_wf[OF wf, of R n "[?x]"] r by simp
  have c1: "connected ?w1 c' = (connected w c' \<and> c' \<noteq> c)" for c' by simp
  have s1: "slot_of ?w1 c' = slot_of w c'" for c' by simp
  have v1: "view ?w1 = view w" by (rule view_features) simp
  have lt: "c < length (conns ?w1)" using co by (simp add: connected_def)
  have n1: "new_events w ?w1 = [Call ?x, Ret ?x]" by (simp add: new_events_def)
  have never: "Slot c \<notin> set (new_events ?w1 (final (run R' n' ys ?w1))) \<and>
              (Call (NewListener x) \<in> set (new_events ?w1 (final (run R' n' ys ?w1))) \<or>
               (\<forall>b. Begin x b \<notin> set (new_events ?w1 (final (run R' n' ys ?w1)))))" for R' n' ys
  proof -
    have "\<not> connected ?w1 c" by simp
    from disconnected_for_ever(1)[OF wf1 lt this, of R' n' ys]
    have "Slot c \<notin> set (new_events ?w1 (final (run R' n' ys ?w1)))"
      by (auto simp: new_events_def)
    moreover have "listeners ?w1 x = None" by simp
    from destroyed_never_runs[OF wf1 this, of R' n' ys]
    have "Call (NewListener x) \<in> set (new_events ?w1 (final (run R' n' ys ?w1))) \<or>
               (\<forall>b. Begin x b \<notin> set (new_events ?w1 (final (run R' n' ys ?w1))))"
      by (auto simp: new_events_def)
    ultimately show ?thesis by blast
  qed
  have d: "distinct (f_s f)" using wf_world_f_s[OF wf f] by blast
  have q1: "\<forall>c'\<in>set (f_s f). connected ?w1 c' \<longrightarrow> quiet R ?w1 (slot_of ?w1 c')"
    using qs unfolding c1 s1 quiet_view[OF v1] by blast
  have fl: "filter (connected ?w1) (f_s f) = filter (\<lambda>c'. connected w c' \<and> c' \<noteq> c) (f_s f)"
    unfolding c1 ..
  have fe: "map (fire_events R ?w1) xs = map (fire_events R w) xs" for xs
    by (intro map_cong refl fire_events_view[OF v1 s1])
  let ?w2 = "(fold disconnect (f_s f) ?w1)\<lparr>trace := trace ?w1 @
      concat (map (fire_events R ?w1) (filter (connected ?w1) (f_s f)))\<rparr>"
  have "invoke R (Suc k) (f_s f) ?w1 = Inr ?w2" by (rule invoke_quiet[OF wf1 d q1])
  moreover have "new_events ?w1 ?w2 =
      concat (map (fire_events R w) (filter (\<lambda>c'. connected w c' \<and> c' \<noteq> c) (f_s f)))"
    unfolding fl fe by (simp add: new_events_def)
  ultimately have pass: "\<exists>w2. invoke R (Suc k) (f_s f) ?w1 = Inr w2 \<and>
              new_events ?w1 w2 =
                concat (map (fire_events R w) (filter (\<lambda>c'. connected w c' \<and> c' \<noteq> c) (f_s f)))"
    by blast
  have "features ?w1 = features w" "futures ?w1 = futures w"
    "listeners ?w1 = (listeners w)(x := None)" by simp_all
  then show ?thesis using r n1 c1 s1 never pass by blast
qed

theorem destroying_unfired_listener_cancels_witness:
  "wf_world three_waiting \<and> listeners three_waiting 1 = Some \<lparr>l_conn = Some 1\<rparr> \<and>
   connected three_waiting 1 \<and>
   (\<exists>w1. run (\<lambda>_. []) 0 [DestroyListener 1] three_waiting = Inr w1 \<and>
      features w1 = features three_waiting \<and>
      connected w1 0 \<and> \<not> connected w1 1 \<and> connected w1 2 \<and>
      Slot 1 \<notin> set (new_events w1 (final (run (\<lambda>_. []) 1 [Enable 0] w1))) \<and>
      (\<exists>w2. invoke (\<lambda>_. []) 1 [0, 1, 2] w1 = Inr w2 \<and>
         new_events w1 w2 = [Slot 0, Begin 0 False, End 0, Slot 2, Begin 2 False, End 2]))"
proof -
  have qs: "\<forall>c'\<in>set (f_s \<lparr>f_name = ''CDC'', f_enabled = False,
      f_pr = \<lparr>sp_available = False, sp_peers = []\<rparr>, f_s = [0, 1, 2],
      f_ctor_enabled = False, f_enable_calls = 0\<rparr>). connected three_waiting c' \<longrightarrow> c' \<noteq> 1 \<longrightarrow>
        quiet (\<lambda>_. []) three_waiting (slot_of three_waiting c')"
    by (simp add: quiet_def)
  have fe: "concat (map (fire_events (\<lambda>_. []) three_waiting)
      (filter (\<lambda>c'. connected three_waiting c' \<and> c' \<noteq> 1) [0, 1, 2])) =
      [Slot 0, Begin 0 False, End 0, Slot 2, Begin 2 False, End 2]"
    by (simp add: three_waiting_connected fire_events_def)
  from destroying_unfired_listener_cancels[OF wf_three_waiting three_waiting_fields(1,3) _
      three_waiting_connected(2) _ qs, of 0 0]
  obtain w1 where w1: "run (\<lambda>_. []) 0 [DestroyListener 1] three_waiting = Inr w1"
    "features w1 = features three_waiting"
    "\<forall>c'. connected w1 c' = (connected three_waiting c' \<and> c' \<noteq> 1)"
    "\<forall>R' n' ys. Slot 1 \<notin> set (new_events w1 (final (run R' n' ys w1)))"
    "\<exists>w2. invoke (\<lambda>_. []) (Suc 0) [0, 1, 2] w1 = Inr w2 \<and>
         new_events w1 w2 = [Slot 0, Begin 0 False, End 0, Slot 2, Begin 2 False, End 2]"
    unfolding fe[symmetric] by (auto simp del: run.simps invoke.simps)
  have "connected w1 0" "\<not> connected w1 1" "connected w1 2"
    using w1(3) three_waiting_connected by simp_all
  then show ?thesis
    using w1 wf_three_waiting three_waiting_fields(3) three_waiting_connected(2)
    by (auto simp del: run.simps invoke.simps)
qed

lemma begins_append [simp]: "begins (xs @ ys) = begins xs @ begins ys"
  by (induction xs rule: begins.induct) simp_all

lemma begins_saw [simp]: "begins (saw w x) = []"
  by (cases x) (auto split: option.splits)

lemma begins_saws [simp]: "begins (concat (map (saw w) xs)) = []"
  by (induction xs) simp_all

lemma begins_fire_events [simp]: "begins (fire_events R w c) = [slot_of w c]"
  by (simp add: fire_events_def)

lemma begins_fires [simp]: "begins (concat (map (fire_events R w) cs)) = map (slot_of w) cs"
  by (induction cs) simp_all

lemma run_append:
  "run R n (xs @ ys) w = (case run R n xs w of Inl ew \<Rightarrow> Inl ew | Inr w1 \<Rightarrow> run R n ys w1)"
  by (induction xs arbitrary: w) (simp_all split: sum.split prod.split)

lemma quiet_dom:
  assumes "\<And>g. (features w' g = None) = (features w g = None)"
  shows "quiet R w' l = quiet R w l"
proof -
  have "observes w' x = observes w x" for x
    using assms by (cases x) simp_all
  then have "observes w' = observes w" by (rule ext)
  then show ?thesis by (simp add: quiet_def)
qed

text \<open>The transition, when the connected listeners are quiet.\<close>

lemma enable_fires:
  assumes wf: "wf_world w" and f: "features w g = Some f"
      and qs: "\<forall>c\<in>set (f_s f). connected w c \<longrightarrow> quiet R w (slot_of w c)"
  defines "f' \<equiv> f\<lparr>f_enabled := True, f_enable_calls := Suc (f_enable_calls f),
                    f_pr := f_pr f\<lparr>sp_available := True, sp_peers := []\<rparr>\<rparr>"
  defines "w1 \<equiv> w\<lparr>features := (features w)(g \<mapsto> f'),
                    futures := mark Ready (sp_peers (f_pr f)) (futures w),
                    trace := trace w @ [Call (Enable g), Flagged g, Resolved g True]\<rparr>"
  shows "enable g (log_event (Call (Enable g)) w) = Inr (w1, f_s f)"
    and "\<exists>w'. run R (Suc n) [Enable g] w = Inr w' \<and> wf_world w' \<and>
           features w' = (features w)(g \<mapsto> f') \<and> listeners w' = listeners w \<and>
           futures w' = mark Ready (sp_peers (f_pr f)) (futures w) \<and>
           length (conns w') = length (conns w) \<and>
           (\<forall>c. connected w' c = (connected w c \<and> c \<notin> set (f_s f))) \<and>
           (\<forall>c. slot_of w' c = slot_of w c) \<and>
           trace w' = trace w @ Call (Enable g) # Flagged g # Resolved g True #
             concat (map (fire_events R w1) (filter (connected w) (f_s f))) @ [Ret (Enable g)]"
proof -
  let ?x = "Enable g"
  show b: "enable g (log_event (Call ?x) w) = Inr (w1, f_s f)"
    using f by (simp add: enable_eq set_value_def w1_def f'_def log_event_def)
  then have b': "begin_op ?x (log_event (Call ?x) w) = Inr (w1, f_s f)" by simp
  have wf1: "wf_world w1" using wf_world_begin_op[OF _ b'] wf by simp
  have d: "distinct (f_s f)" using wf_world_f_s[OF wf f] by blast
  have c1: "connected w1 c = connected w c" for c by (simp add: w1_def)
  have s1: "slot_of w1 c = slot_of w c" for c by (simp add: w1_def)
  have "quiet R w1 l = quiet R w l" for l
    using f by (intro quiet_dom) (simp add: w1_def)
  then have q1: "\<forall>c\<in>set (f_s f). connected w1 c \<longrightarrow> quiet R w1 (slot_of w1 c)"
    using qs by (simp add: c1 s1)
  let ?w2 = "(fold disconnect (f_s f) w1)\<lparr>trace := trace w1 @
      concat (map (fire_events R w1) (filter (connected w1) (f_s f)))\<rparr>"
  have inv: "invoke R (Suc n) (f_s f) w1 = Inr ?w2" by (rule invoke_quiet[OF wf1 d q1])
  let ?w' = "log_event (Ret ?x) ?w2"
  have r: "run R (Suc n) [?x] w = Inr ?w'" using b' inv by simp
  have wf': "wf_world ?w'" using run_wf[OF wf, of R "Suc n" "[?x]"] r by simp
  have fl: "filter (connected w1) (f_s f) = filter (connected w) (f_s f)"
    by (simp add: c1[abs_def])
  have tr: "trace ?w' = trace w @ Call ?x # Flagged g # Resolved g True #
      concat (map (fire_events R w1) (filter (connected w) (f_s f))) @ [Ret ?x]"
    unfolding fl[symmetric] by (simp add: w1_def)
  have "features ?w' = (features w)(g \<mapsto> f')" "listeners ?w' = listeners w"
    "futures ?w' = mark Ready (sp_peers (f_pr f)) (futures w)"
    "length (conns ?w') = length (conns w)"
    "\<forall>c. connected ?w' c = (connected w c \<and> c \<notin> set (f_s f))"
    "\<forall>c. slot_of ?w' c = slot_of w c"
    by (simp_all add: w1_def)
  then show "\<exists>w'. run R (Suc n) [Enable g] w = Inr w' \<and> wf_world w' \<and>
           features w' = (features w)(g \<mapsto> f') \<and> listeners w' = listeners w \<and>
           futures w' = mark Ready (sp_peers (f_pr f)) (futures w) \<and>
           length (conns w') = length (conns w) \<and>
           (\<forall>c. connected w' c = (connected w c \<and> c \<notin> set (f_s f))) \<and>
           (\<forall>c. slot_of w' c = slot_of w c) \<and>
           trace w' = trace w @ Call (Enable g) # Flagged g # Resolved g True #
             concat (map (fire_events R w1) (filter (connected w) (f_s f))) @ [Ret (Enable g)]"
    using r wf' tr by blast
qed


text \<open>Registering distinct listeners on a feature that is not enabled: they are
  connected behind the ones that wait already, and nothing runs.\<close>

lemma register_waiting:
  assumes "wf_world w" and "features w g = Some f" and "\<not> f_enabled f" and "distinct ls"
      and "\<forall>l\<in>set ls. listeners w l \<noteq> None"
      and "\<forall>c\<in>set (f_s f). connected w c \<longrightarrow> slot_of w c \<notin> set ls"
  shows "\<exists>w' f' es. run R n (map (WhenEnabled g) ls) w = Inr w' \<and> wf_world w' \<and>
           view w' = view w \<and> features w' g = Some f' \<and> \<not> f_enabled f' \<and>
           map (slot_of w') (filter (connected w') (f_s f')) =
             map (slot_of w) (filter (connected w) (f_s f)) @ ls \<and>
           (\<forall>l. (listeners w' l = None) = (listeners w l = None)) \<and>
           trace w' = trace w @ es \<and> begins es = []"
  using assms
proof (induction ls arbitrary: w f)
  case Nil
  then show ?case by simp
next
  case (Cons l ls)
  let ?x = "WhenEnabled g l"
  let ?c = "length (conns w)"
  from Cons.prems(5) obtain L where L: "listeners w l = Some L" by auto
  let ?w0 = "log_event (Call ?x) w"
  let ?w1 = "set_connection l L ?c (snd (connect g f l ?w0))"
  let ?w2 = "log_event (Ret ?x) ?w1"
  let ?f2 = "f\<lparr>f_s := f_s f @ [?c]\<rparr>"
  have b: "begin_op ?x ?w0 = Inr (?w1, [])"
    using Cons.prems(2,3) L by (simp add: when_enabled_Inr)
  then have step: "run R n (map (WhenEnabled g) (l # ls)) w = run R n (map (WhenEnabled g) ls) ?w2"
    by simp
  have wf2: "wf_world ?w2" using wf_world_begin_op[OF _ b] Cons.prems(1) by simp
  have f2: "features ?w2 g = Some ?f2" by simp
  have v2: "view ?w2 = view w" using Cons.prems(2) by simp
  have lt: "\<forall>c\<in>set (f_s f). c < ?c" using wf_world_f_s[OF Cons.prems(1,2)] by blast
  have lc: "l_conn L \<noteq> Some ?c" using wf_world_l_conn[OF Cons.prems(1) L] by auto
  have c2: "connected ?w2 c = ((connected w c \<or> c = ?c) \<and> l_conn L \<noteq> Some c)" for c by simp
  have s2: "slot_of ?w2 c = slot_of w c" if "c < ?c" for c
    using that by (simp add: slot_of_connect)
  have s2c: "slot_of ?w2 ?c = l" by (simp add: slot_of_connect)
  have keep: "l_conn L \<noteq> Some c" if "c \<in> set (f_s f)" "connected w c" for c
  proof
    assume "l_conn L = Some c"
    then have "slot_of w c = l" by (rule wf_world_l_slot[OF Cons.prems(1) L])
    then show False using Cons.prems(6) that by auto
  qed
  have fl: "filter (connected ?w2) (f_s ?f2) = filter (connected w) (f_s f) @ [?c]"
  proof -
    have "filter (connected ?w2) (f_s f) = filter (connected w) (f_s f)"
    proof (intro filter_cong refl)
      fix c assume m: "c \<in> set (f_s f)"
      then have "c \<noteq> ?c" using lt by auto
      then show "connected ?w2 c = connected w c" unfolding c2 using keep[OF m] by auto
    qed
    moreover have "connected ?w2 ?c" unfolding c2 using lc by simp
    ultimately show ?thesis by simp
  qed
  have ms: "map (slot_of ?w2) (filter (connected w) (f_s f)) = map (slot_of w) (filter (connected w) (f_s f))"
    using lt by (intro map_cong refl s2) auto
  have sl: "map (slot_of ?w2) (filter (connected ?w2) (f_s ?f2)) =
      map (slot_of w) (filter (connected w) (f_s f)) @ [l]"
    unfolding fl map_append ms using s2c by simp
  have p5: "\<forall>l'\<in>set ls. listeners ?w2 l' \<noteq> None" using Cons.prems(5) by simp
  have p6: "\<forall>c\<in>set (f_s ?f2). connected ?w2 c \<longrightarrow> slot_of ?w2 c \<notin> set ls"
  proof (intro ballI impI)
    fix c assume m: "c \<in> set (f_s ?f2)" and k: "connected ?w2 c"
    show "slot_of ?w2 c \<notin> set ls"
    proof (cases "c = ?c")
      case True
      then show ?thesis using s2c Cons.prems(4) by simp
    next
      case False
      then have "c \<in> set (f_s f)" "connected w c" using m k c2 by auto
      then have "slot_of w c \<notin> set (l # ls)" "c < ?c" using Cons.prems(6) lt by auto
      then show ?thesis using s2 by simp
    qed
  qed
  have ne2: "\<not> f_enabled ?f2" using Cons.prems(3) by simp
  have d: "distinct ls" using Cons.prems(4) by simp
  from Cons.IH[OF wf2 f2 ne2 d p5 p6] obtain w' f' es where
    r: "run R n (map (WhenEnabled g) ls) ?w2 = Inr w'" and
    k: "wf_world w'" "view w' = view ?w2" "features w' g = Some f'" "\<not> f_enabled f'" and
    m: "map (slot_of w') (filter (connected w') (f_s f')) =
             map (slot_of ?w2) (filter (connected ?w2) (f_s ?f2)) @ ls" and
    ls: "\<forall>l'. (listeners w' l' = None) = (listeners ?w2 l' = None)" and
    tr: "trace w' = trace ?w2 @ es" "begins es = []"
    by blast
  have "map (slot_of w') (filter (connected w') (f_s f')) =
      map (slot_of w) (filter (connected w) (f_s f)) @ l # ls"
    unfolding m sl by simp
  moreover have "\<forall>l'. (listeners w' l' = None) = (listeners w l' = None)"
    using ls L by simp
  moreover have "trace w' = trace w @ (Call ?x # Ret ?x # es)" "begins (Call ?x # Ret ?x # es) = []"
    using tr by simp_all
  ultimately show ?case using step r k v2 by (metis (no_types, lifting))
qed


text \<open>Registering distinct quiet listeners on an enabled feature none of whose bodies is
  connected: each one's reaction runs at its registration.\<close>

lemma register_fired:
  assumes "wf_world w" and "features w g = Some f" and "f_enabled f" and "distinct ls"
      and "\<forall>l\<in>set ls. listeners w l \<noteq> None \<and> quiet R w l"
      and "\<forall>c\<in>set (f_s f). \<not> connected w c"
  shows "\<exists>w' f' es. run R (Suc n) (map (WhenEnabled g) ls) w = Inr w' \<and> wf_world w' \<and>
           view w' = view w \<and> features w' g = Some f' \<and> f_enabled f' \<and>
           (\<forall>c\<in>set (f_s f'). \<not> connected w' c) \<and>
           (\<forall>l. (listeners w' l = None) = (listeners w l = None)) \<and>
           trace w' = trace w @ es \<and> begins es = ls"
  using assms
proof (induction ls arbitrary: w f)
  case Nil
  then show ?case by simp
next
  case (Cons l ls)
  let ?x = "WhenEnabled g l"
  let ?c = "length (conns w)"
  from Cons.prems(5) obtain L where L: "listeners w l = Some L" and ql: "quiet R w l" by auto
  have qs: "\<forall>c\<in>set (f_s f). connected w c \<longrightarrow> quiet R w (slot_of w c)"
    using Cons.prems(6) by simp
  have fl: "filter (\<lambda>c'. connected w c' \<and> l_conn L \<noteq> Some c') (f_s f) = []"
    using Cons.prems(6) by (simp add: filter_empty_conv)
  let ?f1 = "f\<lparr>f_s := f_s f @ [?c]\<rparr>"
  let ?e1 = "Call ?x # [Slot ?c, Begin l False] @ concat (map (saw w) (R l)) @ [End l, Ret ?x]"
  from when_enabled_fires[OF Cons.prems(1,2,3) L ql qs, of n] obtain w1 where
    r1: "run R (Suc n) [?x] w = Inr w1" and wf1: "wf_world w1" and v1: "view w1 = view w" and
    f1: "features w1 = (features w)(g \<mapsto> ?f1)" and
    l1: "listeners w1 = (listeners w)(l \<mapsto> L\<lparr>l_conn := Some ?c\<rparr>)" and
    c1: "\<forall>c'. connected w1 c' = (connected w c' \<and> c' \<notin> set (f_s f) \<and> l_conn L \<noteq> Some c')" and
    t1: "trace w1 = trace w @ ?e1"
    unfolding fl by auto
  have step: "run R (Suc n) (map (WhenEnabled g) (l # ls)) w = run R (Suc n) (map (WhenEnabled g) ls) w1"
    using run_append[of R "Suc n" "[?x]" "map (WhenEnabled g) ls" w] r1 by simp
  have g1: "features w1 g = Some ?f1" by (simp add: f1)
  have e1: "f_enabled ?f1" using Cons.prems(3) by simp
  have p5: "\<forall>l'\<in>set ls. listeners w1 l' \<noteq> None \<and> quiet R w1 l'"
    using Cons.prems(5) by (simp add: l1 quiet_view[OF v1])
  have p6: "\<forall>c\<in>set (f_s ?f1). \<not> connected w1 c"
    using c1 connected_less[of w ?c] by auto
  have d: "distinct ls" using Cons.prems(4) by simp
  from Cons.IH[OF wf1 g1 e1 d p5 p6] obtain w' f' es where
    r: "run R (Suc n) (map (WhenEnabled g) ls) w1 = Inr w'" and
    k: "wf_world w'" "view w' = view w1" "features w' g = Some f'" "f_enabled f'"
       "\<forall>c\<in>set (f_s f'). \<not> connected w' c" and
    ls: "\<forall>l'. (listeners w' l' = None) = (listeners w1 l' = None)" and
    tr: "trace w' = trace w1 @ es" "begins es = ls"
    by blast
  have "\<forall>l'. (listeners w' l' = None) = (listeners w l' = None)"
    using ls L by (simp add: l1)
  moreover have "trace w' = trace w @ (?e1 @ es)" "begins (?e1 @ es) = l # ls"
    using tr t1 by simp_all
  moreover have "view w' = view w" using k(2) v1 by simp
  ultimately show ?case using step r k by (metis (no_types, lifting))
qed

lemma destroy_listeners_silent:
  assumes "distinct ls" and "\<forall>l\<in>set ls. listeners w l \<noteq> None"
  shows "\<exists>w' es. run R n (map DestroyListener ls) w = Inr w' \<and>
           trace w' = trace w @ es \<and> begins es = []"
  using assms
proof (induction ls arbitrary: w)
  case Nil
  then show ?case by simp
next
  case (Cons l ls)
  let ?x = "DestroyListener l"
  from Cons.prems(2) obtain L where L: "listeners w l = Some L" by auto
  let ?w1 = "(scoped_disconnect (l_conn L) (log_event (Call ?x) w))\<lparr>listeners := (listeners w)(l := None)\<rparr>"
  let ?w2 = "log_event (Ret ?x) ?w1"
  have b: "begin_op ?x (log_event (Call ?x) w) = Inr (?w1, [])"
    using L by (simp add: destroy_listener_def)
  then have step: "run R n (map DestroyListener (l # ls)) w = run R n (map DestroyListener ls) ?w2"
    by simp
  have "\<forall>l'\<in>set ls. listeners ?w2 l' \<noteq> None" using Cons.prems by auto
  from Cons.IH[OF _ this] Cons.prems(1) obtain w' es where
    "run R n (map DestroyListener ls) ?w2 = Inr w'" "trace w' = trace ?w2 @ es" "begins es = []"
    by auto
  then have "run R n (map DestroyListener (l # ls)) w = Inr w'"
    "trace w' = trace w @ (Call ?x # Ret ?x # es)" "begins (Call ?x # Ret ?x # es) = []"
    using step by simp_all
  then show ?case by blast
qed

lemma count_list_distinct: "distinct xs \<Longrightarrow> x \<in> set xs \<Longrightarrow> count_list xs x = 1"
  by (induction xs) (auto simp: count_list_0_iff)


lemma flag_inv_features: "features w' = features w \<Longrightarrow> flag_inv w' = flag_inv w"
  by (simp add: flag_inv_def)

lemma flag_inv_other [simp]:
  "flag_inv (w\<lparr>listeners := ls\<rparr>) = flag_inv w"
  "flag_inv (w\<lparr>conns := cn\<rparr>) = flag_inv w"
  "flag_inv (w\<lparr>futures := fs\<rparr>) = flag_inv w"
  "flag_inv (w\<lparr>trace := tr\<rparr>) = flag_inv w"
  "flag_inv (log_event e w) = flag_inv w"
  "flag_inv (disconnect c w) = flag_inv w"
  "flag_inv (scoped_disconnect co w) = flag_inv w"
  "flag_inv (fold disconnect cs w) = flag_inv w"
  by (simp_all add: flag_inv_def)

lemma flag_inv_upd:
  assumes "flag_inv w"
      and "f_enabled F \<longleftrightarrow> f_ctor_enabled F \<or> 0 < f_enable_calls F"
      and "sp_available (f_pr F) \<longleftrightarrow> f_enabled F"
  shows "flag_inv (w\<lparr>features := (features w)(g \<mapsto> F)\<rparr>)"
  using assms unfolding flag_inv_def by simp

lemma flag_inv_del: "flag_inv w \<Longrightarrow> flag_inv (w\<lparr>features := (features w)(g := None)\<rparr>)"
  unfolding flag_inv_def by simp

lemma flag_invD:
  assumes "flag_inv w" and "features w g = Some f"
  shows "f_enabled f \<longleftrightarrow> f_ctor_enabled f \<or> 0 < f_enable_calls f"
    and "sp_available (f_pr f) \<longleftrightarrow> f_enabled f"
  using assms unfolding flag_inv_def by simp_all

lemma flag_inv_begin_op:
  assumes "flag_inv w" and "begin_op x w = Inr (w1, cs)"
  shows "flag_inv w1"
proof (cases x)
  case (Construct g nm en)
  with assms(2) have
    w1: "w1 = w\<lparr>features := (features w)(g \<mapsto>
                 \<lparr>f_name = nm, f_enabled = en, f_pr = \<lparr>sp_available = en, sp_peers = []\<rparr>,
                  f_s = [], f_ctor_enabled = en, f_enable_calls = 0\<rparr>)\<rparr>"
    by (auto simp: construct_def split: option.splits)
  show ?thesis unfolding w1 by (rule flag_inv_upd[OF assms(1)]) simp_all
next
  case (Enable g)
  with assms(2) obtain f where f: "features w g = Some f" and
    w1: "w1 = log_event (Resolved g True) (log_event (Flagged g)
            (w\<lparr>features := (features w)(g \<mapsto> f\<lparr>f_enabled := True,
              f_enable_calls := Suc (f_enable_calls f),
              f_pr := f_pr f\<lparr>sp_available := True, sp_peers := []\<rparr>\<rparr>),
            futures := mark Ready (sp_peers (f_pr f)) (futures w)\<rparr>))"
    by (auto simp: enable_eq set_value_def log_event_def Let_def split: option.splits)
  show ?thesis unfolding w1 flag_inv_other
    by (rule flag_inv_upd[OF assms(1)]) simp_all
next
  case (IsEnabled g)
  then show ?thesis using assms
    by (auto simp: is_enabled_def split: option.splits)
next
  case (WhenEnabledFuture g)
  with assms(2) obtain f where f: "features w g = Some f" and
    w1: "w1 = log_event (Got g (fst (get_shared_future (f_pr f) (futures w)))
                 (snd (snd (get_shared_future (f_pr f) (futures w))) !
                    fst (get_shared_future (f_pr f) (futures w))))
              (w\<lparr>features := (features w)(g \<mapsto> f\<lparr>f_pr := fst (snd (get_shared_future (f_pr f) (futures w)))\<rparr>),
                 futures := snd (snd (get_shared_future (f_pr f) (futures w)))\<rparr>)"
    by (auto simp: when_enabled_future_def split: option.splits prod.splits)
  have "sp_available (fst (snd (get_shared_future (f_pr f) (futures w)))) = sp_available (f_pr f)"
    by (simp add: get_shared_future_def Let_def)
  then show ?thesis unfolding w1 flag_inv_other
    using flag_invD[OF assms(1) f] by (intro flag_inv_upd[OF assms(1)]) simp_all
next
  case (WhenEnabled g l)
  from assms(2) WhenEnabled obtain f L where
    f: "features w g = Some f" and L: "listeners w l = Some L" and
    w1: "w1 = set_connection l L (length (conns w)) (snd (connect g f l w))"
    by (auto simp: when_enabled_Inr)
  have "flag_inv (w\<lparr>features := (features w)(g \<mapsto> f\<lparr>f_s := f_s f @ [length (conns w)]\<rparr>)\<rparr>)"
    using flag_invD[OF assms(1) f] by (intro flag_inv_upd[OF assms(1)]) simp_all
  then show ?thesis
    unfolding w1 set_connection_def connect_def Let_def by simp
next
  case (NewListener l)
  then show ?thesis using assms
    by (auto simp: new_listener_def split: option.splits)
next
  case (DestroyListener l)
  then show ?thesis using assms
    by (auto simp: destroy_listener_def split: option.splits)
next
  case (DestroyFeature g)
  with assms(2) have "features w g \<noteq> None"
    by (auto simp: destroy_feature_def split: option.splits)
  then obtain f where f: "features w g = Some f" by auto
  with assms(2) DestroyFeature have
    w1: "w1 = (fold disconnect (f_s f) w)\<lparr>features := (features w)(g := None),
               futures := mark Broken (sp_peers (f_pr f)) (futures w)\<rparr>"
    by (simp add: destroy_feature_def)
  have "flag_inv ((fold disconnect (f_s f) w)\<lparr>features := (features (fold disconnect (f_s f) w))(g := None)\<rparr>)"
    by (rule flag_inv_del) (simp add: assms(1))
  then show ?thesis unfolding w1 by simp
qed

lemma run_flag_inv:
  assumes "wf_world w" and "flag_inv w"
  shows "flag_inv (final (run R n xs w))"
proof -
  let ?P = "\<lambda>w. wf_world w \<and> flag_inv w"
  have B: "\<And>x w w1 cs. ?P w \<Longrightarrow> begin_op x w = Inr (w1, cs) \<Longrightarrow> ?P w1"
    using wf_world_begin_op flag_inv_begin_op by blast
  have T: "\<And>e w. ?P w \<Longrightarrow> bracket e \<Longrightarrow> ?P (log_event e w)"
    by simp
  have C: "\<And>c w l w1. ?P w \<Longrightarrow> connected w c \<Longrightarrow> callback c w = Inr (l, w1) \<Longrightarrow> ?P w1"
  proof -
    fix c w l w1 assume p: "?P w" and c: "connected w c" and cb: "callback c w = Inr (l, w1)"
    have "w1 = (disconnect c w)\<lparr>trace := trace w @ [Slot c, Begin (slot_of w c) False]\<rparr>"
      using callback_wf[of w c] p c cb by simp
    then show "?P w1" using p by (simp add: wf_world_disconnect)
  qed
  have "?P (final (run R n xs w))"
  proof (rule run_invoke_invariant(1)[where P = ?P])
    show "?P w" using assms by simp
  qed (rule B T C; assumption)+
  then show ?thesis by simp
qed


lemma fire_events_mem:
  "Slot c \<in> set (fire_events R w c)" "Begin (slot_of w c) False \<in> set (fire_events R w c)"
  "End (slot_of w c) \<in> set (fire_events R w c)"
  by (simp_all add: fire_events_def)

lemma flag_inv_three_waiting: "flag_inv three_waiting"
proof -
  have "flag_inv empty_world" by (simp add: flag_inv_def empty_world_def)
  then show ?thesis
    unfolding three_waiting_def by (rule run_flag_inv[OF wf_world_empty])
qed

lemma length_mark [simp]: "length (mark s ps fs) = length fs"
  unfolding mark_def by (induction ps arbitrary: fs) simp_all

lemma nth_mark:
  "i < length fs \<Longrightarrow> mark s ps fs ! i = (if i \<in> set ps then s else fs ! i)"
  unfolding mark_def
proof (induction ps arbitrary: fs)
  case Nil
  then show ?case by simp
next
  case (Cons p ps)
  then show ?case by (auto simp: nth_list_update)
qed

lemma mark_peers_and_new:
  assumes "\<forall>i\<in>set ps. i < length fs"
  shows "mark s (ps @ [length fs..<length fs + k]) (fs @ replicate k x) = mark s ps fs @ replicate k s"
proof (rule nth_equalityI)
  show "length (mark s (ps @ [length fs..<length fs + k]) (fs @ replicate k x)) =
        length (mark s ps fs @ replicate k s)" by simp
next
  fix i assume "i < length (mark s (ps @ [length fs..<length fs + k]) (fs @ replicate k x))"
  then have i: "i < length fs + k" by simp
  show "mark s (ps @ [length fs..<length fs + k]) (fs @ replicate k x) ! i =
        (mark s ps fs @ replicate k s) ! i"
  proof (cases "i < length fs")
    case True
    then show ?thesis using assms i by (auto simp: nth_mark nth_append)
  next
    case False
    then show ?thesis using assms i by (auto simp: nth_mark nth_append)
  qed
qed

text \<open>Calls of \<^verbatim>\<open>when_enabled()\<close> while the promise is not resolved, and once it
  is.\<close>

lemma futures_pending:
  assumes "features w g = Some f" and "\<not> sp_available (f_pr f)"
  shows "\<exists>w'. run R n (replicate k (WhenEnabledFuture g)) w = Inr w' \<and>
           features w' = (features w)(g \<mapsto> f\<lparr>f_pr := (f_pr f)\<lparr>sp_peers :=
               sp_peers (f_pr f) @ [length (futures w)..<length (futures w) + k]\<rparr>\<rparr>) \<and>
           listeners w' = listeners w \<and> conns w' = conns w \<and>
           futures w' = futures w @ replicate k Pending \<and>
           trace w' = trace w @
             concat (map (\<lambda>i. [Call (WhenEnabledFuture g), Got g (length (futures w) + i) Pending,
                                Ret (WhenEnabledFuture g)]) [0..<k])"
  using assms
proof (induction k arbitrary: w f)
  case 0
  then show ?case by (simp add: fun_eq_iff)
next
  case (Suc k)
  let ?x = "WhenEnabledFuture g"
  let ?K = "length (futures w)"
  let ?f1 = "f\<lparr>f_pr := (f_pr f)\<lparr>sp_peers := sp_peers (f_pr f) @ [?K]\<rparr>\<rparr>"
  let ?w1 = "log_event (Ret ?x) (log_event (Got g ?K Pending)
      ((log_event (Call ?x) w)\<lparr>features := (features w)(g \<mapsto> ?f1), futures := futures w @ [Pending]\<rparr>))"
  have b: "begin_op ?x (log_event (Call ?x) w) =
      Inr (log_event (Got g ?K Pending)
        ((log_event (Call ?x) w)\<lparr>features := (features w)(g \<mapsto> ?f1), futures := futures w @ [Pending]\<rparr>), [])"
    using Suc.prems by (simp add: when_enabled_future_def get_shared_future_def Let_def)
  then have step: "run R n (replicate (Suc k) ?x) w = run R n (replicate k ?x) ?w1" by simp
  have f1: "features ?w1 g = Some ?f1" and n1: "\<not> sp_available (f_pr ?f1)"
    using Suc.prems by simp_all
  from Suc.IH[OF f1 n1] obtain w' where
    r: "run R n (replicate k ?x) ?w1 = Inr w'" and
    fe: "features w' = (features ?w1)(g \<mapsto> ?f1\<lparr>f_pr := (f_pr ?f1)\<lparr>sp_peers :=
               sp_peers (f_pr ?f1) @ [length (futures ?w1)..<length (futures ?w1) + k]\<rparr>\<rparr>)" and
    o: "listeners w' = listeners ?w1" "conns w' = conns ?w1" and
    fu: "futures w' = futures ?w1 @ replicate k Pending" and
    tr: "trace w' = trace ?w1 @
             concat (map (\<lambda>i. [Call ?x, Got g (length (futures ?w1) + i) Pending, Ret ?x]) [0..<k])"
    by blast
  have u: "[?K..<?K + Suc k] = ?K # [Suc ?K..<Suc ?K + k]"
    by (simp add: upt_conv_Cons)
  have r': "run R n (replicate (Suc k) ?x) w = Inr w'" using step r by (simp only:)
  have c1: "features w' = (features w)(g \<mapsto> f\<lparr>f_pr := (f_pr f)\<lparr>sp_peers :=
               sp_peers (f_pr f) @ [?K..<?K + Suc k]\<rparr>\<rparr>)"
    unfolding fe u by simp
  have c2: "listeners w' = listeners w" "conns w' = conns w" using o by simp_all
  have c3: "futures w' = futures w @ replicate (Suc k) Pending"
    unfolding fu by (simp add: replicate_append_same)
  have c4: "trace w' = trace w @
             concat (map (\<lambda>i. [Call ?x, Got g (?K + i) Pending, Ret ?x]) [0..<Suc k])"
    unfolding tr by (simp add: upt_rec[of 0 "Suc k"] map_Suc_upt[symmetric] o_def del: upt_Suc)
  show ?case by (intro exI[of _ w'] conjI r' c1 c2 c3 c4)
qed


lemma futures_ready:
  assumes "features w g = Some f" and "sp_available (f_pr f)"
  shows "\<exists>w'. run R n (replicate k (WhenEnabledFuture g)) w = Inr w' \<and>
           features w' = features w \<and> listeners w' = listeners w \<and> conns w' = conns w \<and>
           futures w' = futures w @ replicate k Ready \<and>
           trace w' = trace w @
             concat (map (\<lambda>i. [Call (WhenEnabledFuture g), Got g (length (futures w) + i) Ready,
                                Ret (WhenEnabledFuture g)]) [0..<k])"
  using assms
proof (induction k arbitrary: w)
  case 0
  then show ?case by simp
next
  case (Suc k)
  let ?x = "WhenEnabledFuture g"
  let ?K = "length (futures w)"
  let ?w1 = "log_event (Ret ?x) (log_event (Got g ?K Ready)
      ((log_event (Call ?x) w)\<lparr>features := (features w)(g \<mapsto> f), futures := futures w @ [Ready]\<rparr>))"
  have b: "begin_op ?x (log_event (Call ?x) w) =
      Inr (log_event (Got g ?K Ready)
        ((log_event (Call ?x) w)\<lparr>features := (features w)(g \<mapsto> f), futures := futures w @ [Ready]\<rparr>), [])"
    using Suc.prems by (simp add: when_enabled_future_def get_shared_future_def Let_def)
  then have step: "run R n (replicate (Suc k) ?x) w = run R n (replicate k ?x) ?w1" by simp
  have f1: "features ?w1 g = Some f" by simp
  have fw: "features ?w1 = features w" using Suc.prems(1) by (simp add: fun_eq_iff)
  from Suc.IH[OF f1 Suc.prems(2)] obtain w' where
    r: "run R n (replicate k ?x) ?w1 = Inr w'" and
    fe: "features w' = features ?w1" and
    o: "listeners w' = listeners ?w1" "conns w' = conns ?w1" and
    fu: "futures w' = futures ?w1 @ replicate k Ready" and
    tr: "trace w' = trace ?w1 @
             concat (map (\<lambda>i. [Call ?x, Got g (length (futures ?w1) + i) Ready, Ret ?x]) [0..<k])"
    by blast
  have r': "run R n (replicate (Suc k) ?x) w = Inr w'" using step r by (simp only:)
  have c1: "features w' = features w" unfolding fe fw ..
  have c2: "listeners w' = listeners w" "conns w' = conns w" using o by simp_all
  have c3: "futures w' = futures w @ replicate (Suc k) Ready"
    unfolding fu by (simp add: replicate_append_same)
  have c4: "trace w' = trace w @
             concat (map (\<lambda>i. [Call ?x, Got g (?K + i) Ready, Ret ?x]) [0..<Suc k])"
    unfolding tr by (simp add: upt_rec[of 0 "Suc k"] map_Suc_upt[symmetric] o_def del: upt_Suc)
  show ?case by (intro exI[of _ w'] conjI r' c1 c2 c3 c4)
qed

text \<open>
  C8. \<^verbatim>\<open>when_enabled()\<close> hands out futures of the feature's one shared promise,
  and never fails. Once the promise is resolved every call returns a ready future and
  changes nothing else: no feature, listener or connection, and no resolution is made
  again. While it is not resolved every call
  returns a pending future that waits with the promise, and the one
  \<^verbatim>\<open>set_value()\<close> of the promise makes all of them ready together with those
  that waited before.
\<close>

theorem shared_future_for_every_caller:
  assumes "features w g = Some f" and "\<forall>i\<in>set (sp_peers (f_pr f)). i < length (futures w)"
  shows "(sp_available (f_pr f) \<longrightarrow>
            (\<exists>w'. run R n (replicate k (WhenEnabledFuture g)) w = Inr w' \<and>
               features w' = features w \<and> listeners w' = listeners w \<and> conns w' = conns w \<and>
               futures w' = futures w @ replicate k Ready \<and>
               new_events w w' =
                 concat (map (\<lambda>i. [Call (WhenEnabledFuture g), Got g (length (futures w) + i) Ready,
                                    Ret (WhenEnabledFuture g)]) [0..<k]))) \<and>
         (\<not> sp_available (f_pr f) \<longrightarrow>
            (\<exists>w' f'. run R n (replicate k (WhenEnabledFuture g)) w = Inr w' \<and>
               features w' = (features w)(g \<mapsto> f') \<and>
               f' = f\<lparr>f_pr := (f_pr f)\<lparr>sp_peers :=
                      sp_peers (f_pr f) @ [length (futures w)..<length (futures w) + k]\<rparr>\<rparr> \<and>
               listeners w' = listeners w \<and> conns w' = conns w \<and>
               futures w' = futures w @ replicate k Pending \<and>
               new_events w w' =
                 concat (map (\<lambda>i. [Call (WhenEnabledFuture g), Got g (length (futures w) + i) Pending,
                                    Ret (WhenEnabledFuture g)]) [0..<k]) \<and>
               set_value (f_pr f') (futures w') =
                 ((f_pr f)\<lparr>sp_available := True, sp_peers := []\<rparr>,
                  mark Ready (sp_peers (f_pr f)) (futures w) @ replicate k Ready)))"
proof (intro conjI impI)
  assume av: "sp_available (f_pr f)"
  from futures_ready[OF assms(1) av, of R n k] new_events_append
  show "\<exists>w'. run R n (replicate k (WhenEnabledFuture g)) w = Inr w' \<and>
               features w' = features w \<and> listeners w' = listeners w \<and> conns w' = conns w \<and>
               futures w' = futures w @ replicate k Ready \<and>
               new_events w w' =
                 concat (map (\<lambda>i. [Call (WhenEnabledFuture g), Got g (length (futures w) + i) Ready,
                                    Ret (WhenEnabledFuture g)]) [0..<k])"
    by blast
next
  assume nav: "\<not> sp_available (f_pr f)"
  let ?f' = "f\<lparr>f_pr := (f_pr f)\<lparr>sp_peers :=
                      sp_peers (f_pr f) @ [length (futures w)..<length (futures w) + k]\<rparr>\<rparr>"
  from futures_pending[OF assms(1) nav, of R n k] obtain w' where
    r: "run R n (replicate k (WhenEnabledFuture g)) w = Inr w'" and
    fe: "features w' = (features w)(g \<mapsto> ?f')" and
    o: "listeners w' = listeners w" "conns w' = conns w" and
    fu: "futures w' = futures w @ replicate k Pending" and
    tr: "trace w' = trace w @
             concat (map (\<lambda>i. [Call (WhenEnabledFuture g), Got g (length (futures w) + i) Pending,
                                Ret (WhenEnabledFuture g)]) [0..<k])"
    by blast
  have "set_value (f_pr ?f') (futures w') =
                 ((f_pr f)\<lparr>sp_available := True, sp_peers := []\<rparr>,
                  mark Ready (sp_peers (f_pr f)) (futures w) @ replicate k Ready)"
    unfolding fu set_value_def using mark_peers_and_new[OF assms(2)] by simp
  then show "\<exists>w' f'. run R n (replicate k (WhenEnabledFuture g)) w = Inr w' \<and>
               features w' = (features w)(g \<mapsto> f') \<and>
               f' = f\<lparr>f_pr := (f_pr f)\<lparr>sp_peers :=
                      sp_peers (f_pr f) @ [length (futures w)..<length (futures w) + k]\<rparr>\<rparr> \<and>
               listeners w' = listeners w \<and> conns w' = conns w \<and>
               futures w' = futures w @ replicate k Pending \<and>
               new_events w w' =
                 concat (map (\<lambda>i. [Call (WhenEnabledFuture g), Got g (length (futures w) + i) Pending,
                                    Ret (WhenEnabledFuture g)]) [0..<k]) \<and>
               set_value (f_pr f') (futures w') =
                 ((f_pr f)\<lparr>sp_available := True, sp_peers := []\<rparr>,
                  mark Ready (sp_peers (f_pr f)) (futures w) @ replicate k Ready)"
    using r fe o fu new_events_append[OF tr] by blast
qed

theorem shared_future_for_every_caller_witness:
  "map_option (\<lambda>f. sp_available (f_pr f)) (features three_waiting 0) = Some False \<and>
   map_option (\<lambda>f. sp_available (f_pr f)) (features all_fired 0) = Some True \<and>
   (\<exists>w'. run (\<lambda>_. []) 0 [WhenEnabledFuture 0, WhenEnabledFuture 0] all_fired = Inr w' \<and>
      features w' = features all_fired \<and> futures w' = [Ready, Ready] \<and>
      new_events all_fired w' =
        [Call (WhenEnabledFuture 0), Got 0 0 Ready, Ret (WhenEnabledFuture 0),
         Call (WhenEnabledFuture 0), Got 0 1 Ready, Ret (WhenEnabledFuture 0)]) \<and>
   (\<exists>w' f'. run (\<lambda>_. []) 0 [WhenEnabledFuture 0, WhenEnabledFuture 0] three_waiting = Inr w' \<and>
      features w' 0 = Some f' \<and> sp_peers (f_pr f') = [0, 1] \<and>
      futures w' = [Pending, Pending] \<and>
      new_events three_waiting w' =
        [Call (WhenEnabledFuture 0), Got 0 0 Pending, Ret (WhenEnabledFuture 0),
         Call (WhenEnabledFuture 0), Got 0 1 Pending, Ret (WhenEnabledFuture 0)] \<and>
      snd (set_value (f_pr f') (futures w')) = [Ready, Ready])"
proof -
  let ?F = "\<lparr>f_name = ''CDC'', f_enabled = False,
      f_pr = \<lparr>sp_available = False, sp_peers = []\<rparr>, f_s = [0, 1, 2],
      f_ctor_enabled = False, f_enable_calls = 0\<rparr>"
  let ?G = "\<lparr>f_name = ''CDC'', f_enabled = True,
          f_pr = \<lparr>sp_available = True, sp_peers = []\<rparr>, f_s = [0, 1, 2],
          f_ctor_enabled = False, f_enable_calls = 1\<rparr>"
  have g: "features all_fired 0 = Some ?G" and fa: "futures all_fired = []"
    and ft: "futures three_waiting = []"
    by (simp_all add: all_fired_eq three_waiting_eq)
  have pa: "\<forall>i\<in>set (sp_peers (f_pr ?G)). i < length (futures all_fired)" by simp
  have pt: "\<forall>i\<in>set (sp_peers (f_pr ?F)). i < length (futures three_waiting)" by simp
  have two: "replicate 2 x = [x, x]" for x :: oper by (simp add: numeral_2_eq_2)
  have a: "\<exists>w'. run (\<lambda>_. []) 0 [WhenEnabledFuture 0, WhenEnabledFuture 0] all_fired = Inr w' \<and>
      features w' = features all_fired \<and> futures w' = [Ready, Ready] \<and>
      new_events all_fired w' =
        [Call (WhenEnabledFuture 0), Got 0 0 Ready, Ret (WhenEnabledFuture 0),
         Call (WhenEnabledFuture 0), Got 0 1 Ready, Ret (WhenEnabledFuture 0)]"
    using shared_future_for_every_caller[OF g pa, of "\<lambda>_. []" 0 2, THEN conjunct1]
    unfolding two fa by (auto simp: numeral_2_eq_2 simp del: run.simps)
  have b: "\<exists>w' f'. run (\<lambda>_. []) 0 [WhenEnabledFuture 0, WhenEnabledFuture 0] three_waiting = Inr w' \<and>
      features w' 0 = Some f' \<and> sp_peers (f_pr f') = [0, 1] \<and>
      futures w' = [Pending, Pending] \<and>
      new_events three_waiting w' =
        [Call (WhenEnabledFuture 0), Got 0 0 Pending, Ret (WhenEnabledFuture 0),
         Call (WhenEnabledFuture 0), Got 0 1 Pending, Ret (WhenEnabledFuture 0)] \<and>
      snd (set_value (f_pr f') (futures w')) = [Ready, Ready]"
    using shared_future_for_every_caller[OF three_waiting_fields(1) pt, of "\<lambda>_. []" 0 2, THEN conjunct2]
    unfolding two ft by (auto simp: numeral_2_eq_2 mark_def simp del: run.simps)
  show ?thesis using a b g three_waiting_fields(1) by simp
qed

lemma registrations_simps [simp]:
  "registrations l [] = 0"
  "registrations l (es @ es') = registrations l es + registrations l es'"
  "registrations l (e # es) = (if registers l e then 1 else 0) + registrations l es"
  by (simp_all add: registrations_def)

lemma begins_not_fires: "\<forall>e\<in>set es. \<not> fires e \<Longrightarrow> begins es = []"
  by (induction es rule: begins.induct) simp_all

lemma begin_op_has_live:
  assumes "begin_op x w = Inr (w1, cs)" and "has_live w1 l"
  shows "has_live w l \<or> (\<exists>g. x = WhenEnabled g l)"
proof (cases "\<exists>g l'. x = WhenEnabled g l'")
  case True
  then obtain g l' where x: "x = WhenEnabled g l'" by blast
  show ?thesis
  proof (cases "l' = l")
    case True
    then show ?thesis using x by blast
  next
    case False
    from assms(1) x obtain f L where
      w1: "w1 = set_connection l' L (length (conns w)) (snd (connect g f l' w))"
      by (auto simp: when_enabled_Inr)
    from assms(2) obtain c where c: "connected w1 c" "slot_of w1 c = l"
      unfolding has_live_iff by blast
    have "c \<noteq> length (conns w)" using c(2) False by (auto simp: w1 slot_of_connect)
    then have "connected w c" "slot_of w c = l"
      using c by (auto simp: w1 slot_of_connect connected_less)
    then show ?thesis unfolding has_live_iff by blast
  qed
next
  case False
  from assms(2) obtain c where c: "connected w1 c" "slot_of w1 c = l"
    unfolding has_live_iff by blast
  have "length (conns w1) = length (conns w)"
    using assms(1) False
    by (cases x)
       (auto simp: construct_def enable_eq is_enabled_def when_enabled_future_def
          new_listener_def destroy_listener_def destroy_feature_def set_value_def
          get_shared_future_def Let_def split: option.splits if_splits prod.splits)
  then have "c < length (conns w)" using c(1) connected_less by fastforce
  then have "connected w c" "slot_of w c = l"
    using begin_op_conns(2,3)[OF assms(1)] c by auto
  then show ?thesis unfolding has_live_iff by blast
qed

text \<open>Every registration is answered by at most one reaction: in every run, complete or
  not, a listener's reaction is entered at most as often as the listener was registered
  (once more if it was connected at the start), and a listener that is still connected
  has one entry less.\<close>

lemma reactions_le_registrations:
  assumes "wf_world w"
  shows "\<exists>es. trace (final (run R n xs w)) = trace w @ es \<and>
           count_list (begins es) l + (if has_live (final (run R n xs w)) l then 1 else 0)
             \<le> registrations l es + (if has_live w l then 1 else 0)"
proof -
  let ?b = "\<lambda>w'. if has_live w' l then 1 else (0::nat)"
  let ?P = "\<lambda>w'. wf_world w' \<and> (\<exists>es. trace w' = trace w @ es \<and>
      count_list (begins es) l + ?b w' \<le> registrations l es + ?b w)"
  have F: "?P (log_event (Call x) w')" if "?P w'" for x w'
  proof -
    from that obtain es where es: "trace w' = trace w @ es"
      "count_list (begins es) l + ?b w' \<le> registrations l es + ?b w" by blast
    have "trace (log_event (Call x) w') = trace w @ (es @ [Call x])" using es(1) by simp
    moreover have "count_list (begins (es @ [Call x])) l + ?b (log_event (Call x) w')
        \<le> registrations l (es @ [Call x]) + ?b w"
      using es(2) by simp
    ultimately show ?thesis using that by (metis wf_world_log_event)
  qed
  have B: "?P w1" if p: "?P w'" and b: "begin_op x (log_event (Call x) w') = Inr (w1, cs)" for x w' w1 cs
  proof -
    from p obtain es where es: "trace w' = trace w @ es"
      "count_list (begins es) l + ?b w' \<le> registrations l es + ?b w" by blast
    from begin_op_trace[OF b] obtain es' where es': "trace w1 = trace (log_event (Call x) w') @ es'"
      "\<forall>e\<in>set es'. \<not> fires e" by blast
    have wf1: "wf_world w1" using wf_world_begin_op[OF _ b] p by simp
    have t1: "trace w1 = trace w @ (es @ Call x # es')" using es(1) es'(1) by simp
    have b0: "begins es' = []" by (rule begins_not_fires[OF es'(2)])
    have "?b w1 \<le> ?b w' + (if registers l (Call x) then 1 else 0)"
      using begin_op_has_live[OF b, of l] by auto
    then have "count_list (begins (es @ Call x # es')) l + ?b w1
        \<le> registrations l (es @ Call x # es') + ?b w"
      using es(2) b0 by simp
    then show ?thesis using wf1 t1 by blast
  qed
  have T: "?P (log_event e w')" if p: "?P w'" and e: "bracket e" for e w'
  proof -
    from p obtain es where es: "trace w' = trace w @ es"
      "count_list (begins es) l + ?b w' \<le> registrations l es + ?b w" by blast
    have "begins [e] = []" using e by (cases e) simp_all
    then have "trace (log_event e w') = trace w @ (es @ [e])"
      "count_list (begins (es @ [e])) l + ?b (log_event e w') \<le> registrations l (es @ [e]) + ?b w"
      using es by simp_all
    then show ?thesis using p by (metis wf_world_log_event)
  qed
  have C: "?P w1" if p: "?P w'" and c: "connected w' c" and cb: "callback c w' = Inr (l', w1)" for c w' l' w1
  proof -
    from p obtain es where es: "trace w' = trace w @ es"
      "count_list (begins es) l + ?b w' \<le> registrations l es + ?b w"
      and wf': "wf_world w'" by blast
    have w1: "w1 = (disconnect c w')\<lparr>trace := trace w' @ [Slot c, Begin (slot_of w' c) False]\<rparr>"
      using callback_wf[OF wf' c] cb by simp
    have wf1: "wf_world w1" using wf' by (simp add: w1 wf_world_disconnect)
    let ?es' = "es @ [Slot c, Begin (slot_of w' c) False]"
    have t1: "trace w1 = trace w @ ?es'" using es(1) by (simp add: w1)
    have "count_list (begins ?es') l + ?b w1 \<le> count_list (begins es) l + ?b w'"
    proof (cases "slot_of w' c = l")
      case True
      have "has_live w' l" unfolding has_live_iff using c True by blast
      moreover have "\<not> has_live w1 l"
        unfolding has_live_iff using wf_world_unique[OF wf' c] True by (auto simp: w1)
      ultimately show ?thesis using True by simp
    next
      case False
      have "has_live w1 l \<Longrightarrow> has_live w' l" unfolding has_live_iff by (auto simp: w1)
      then show ?thesis using False by simp
    qed
    moreover have "registrations l ?es' = registrations l es" by simp
    ultimately have "count_list (begins ?es') l + ?b w1 \<le> registrations l ?es' + ?b w"
      using es(2) by linarith
    then show ?thesis using wf1 t1 by blast
  qed
  have "?P (final (run R n xs w))"
  proof (rule run_invoke_invariant_call(1)[where P = ?P])
    show "?P w" using assms by simp
  qed (rule F B T C; assumption)+
  then show ?thesis by blast
qed


lemma wf_fresh_world: "wf_world fresh_world"
  unfolding fresh_world_def by (rule run_wf[OF wf_world_empty])

lemma fresh_world_fields:
  "features fresh_world 0 = Some \<lparr>f_name = ''CDC'', f_enabled = False,
      f_pr = \<lparr>sp_available = False, sp_peers = []\<rparr>, f_s = [],
      f_ctor_enabled = False, f_enable_calls = 0\<rparr>"
  "listeners fresh_world 0 = Some \<lparr>l_conn = None\<rparr>"
  "listeners fresh_world 1 = Some \<lparr>l_conn = None\<rparr>"
  "listeners fresh_world 2 = Some \<lparr>l_conn = None\<rparr>"
  "conns fresh_world = []" "futures fresh_world = []"
  "listeners fresh_world (Suc 0) = Some \<lparr>l_conn = None\<rparr>"
  by (simp_all add: fresh_world_def empty_world_def construct_def new_listener_def)

lemma fired_append1: "fired c l es \<Longrightarrow> fired c l (es @ es')"
  by (induction c l es rule: fired.induct) auto

lemma fired_append2: "fired c l es' \<Longrightarrow> fired c l (es @ es')"
proof (induction es)
  case Nil
  then show ?case by simp
next
  case (Cons e es)
  then have "fired c l (es @ es')" by simp
  then show ?case by (cases "es @ es'") simp_all
qed

lemma fired_here [simp]: "fired c l (es @ Slot c # Begin l False # es')"
  by (rule fired_append2) simp

lemma fired_set: "fired c l es \<Longrightarrow> Slot c \<in> set es \<and> Begin l False \<in> set es"
  by (induction c l es rule: fired.induct) auto

lemma fired_begins: "fired c l es \<Longrightarrow> l \<in> set (begins es)"
proof (induction c l es rule: fired.induct)
  case (1 c l e e' es)
  show ?case
  proof (cases "e = Slot c \<and> e' = Begin l False")
    case True
    then show ?thesis by simp
  next
    case False
    then have "fired c l (e' # es)" using "1.prems" by auto
    then have "l \<in> set (begins (e' # es))" by (rule "1.IH")
    then show ?thesis by (cases e) simp_all
  qed
qed simp_all

lemma cancelled_append [simp]:
  "cancelled g l (es @ es') = (cancelled g l es \<or> cancelled g l es')"
  by (simp add: cancelled_def list_ex_append)

lemma cancelled_Cons [simp]:
  "cancelled g l (e # es) = (cancel_event g l e \<or> cancelled g l es)"
  "cancelled g l [] = False"
  by (simp_all add: cancelled_def)

lemma cancelled_not_Call:
  "\<forall>e\<in>set es. \<forall>x. e \<noteq> Call x \<Longrightarrow> \<not> cancelled g l es"
proof (induction es)
  case Nil
  then show ?case by (simp add: cancelled_def)
next
  case (Cons e es)
  then have "\<not> cancelled g l es" by simp
  moreover have "\<not> cancel_event g l e" using Cons.prems by (cases e) simp_all
  ultimately show ?case by (simp add: cancelled_def)
qed

text \<open>What a run leaves of the bodies that existed before it: they exist, their slots
  are bound as before, and none is connected again.\<close>

lemma callback_Inr:
  assumes "callback c w = Inr (l, w1)"
  shows "l = slot_of w c"
    and "length (conns w1) = length (conns w)"
    and "slot_of w1 c' = slot_of w c'"
    and "connected w1 c' \<Longrightarrow> connected w c'"
    and "features w1 = features w"
  using assms
  by (auto simp: callback_def Let_def split: option.splits)

lemma run_old_bodies:
  shows "length (conns w) \<le> length (conns (final (run R n xs w))) \<and>
         (\<forall>c<length (conns w). slot_of (final (run R n xs w)) c = slot_of w c \<and>
            (connected (final (run R n xs w)) c \<longrightarrow> connected w c))"
    and "length (conns w) \<le> length (conns (final (invoke R n cs w))) \<and>
         (\<forall>c<length (conns w). slot_of (final (invoke R n cs w)) c = slot_of w c \<and>
            (connected (final (invoke R n cs w)) c \<longrightarrow> connected w c))"
proof -
  let ?P = "\<lambda>w'. length (conns w) \<le> length (conns w') \<and>
         (\<forall>c<length (conns w). slot_of w' c = slot_of w c \<and> (connected w' c \<longrightarrow> connected w c))"
  have B: "?P w1" if p: "?P w'" and b: "begin_op x w' = Inr (w1, cs)" for x w' w1 cs
  proof (intro conjI allI impI)
    show "length (conns w) \<le> length (conns w1)" using p begin_op_conns(1)[OF b] by simp
    fix c assume c: "c < length (conns w)"
    then have c': "c < length (conns w')" using p by simp
    show "slot_of w1 c = slot_of w c" using begin_op_conns(3)[OF b c'] p c by simp
    assume "connected w1 c"
    then show "connected w c" using begin_op_conns(2)[OF b c'] p c by blast
  qed
  have T: "?P (log_event e w')" if "?P w'" for e w' using that by simp
  have C: "?P w1" if p: "?P w'" and cb: "callback c w' = Inr (l, w1)" for c w' l w1
    using p callback_Inr(2,3,4)[OF cb] by auto
  have p0: "?P w" by simp
  show "length (conns w) \<le> length (conns (final (run R n xs w))) \<and>
         (\<forall>c<length (conns w). slot_of (final (run R n xs w)) c = slot_of w c \<and>
            (connected (final (run R n xs w)) c \<longrightarrow> connected w c))"
  proof (rule run_invoke_invariant(1)[where P = ?P])
    show "?P w" by (rule p0)
  qed (rule B T C; assumption)+
  show "length (conns w) \<le> length (conns (final (invoke R n cs w))) \<and>
         (\<forall>c<length (conns w). slot_of (final (invoke R n cs w)) c = slot_of w c \<and>
            (connected (final (invoke R n cs w)) c \<longrightarrow> connected w c))"
  proof (rule run_invoke_invariant(2)[where P = ?P])
    show "?P w" by (rule p0)
  qed (rule B T C; assumption)+
qed

text \<open>A signal invocation that returns leaves every body it iterated disconnected.\<close>

lemma invoke_disconnects:
  assumes "wf_world w" and "\<forall>c\<in>set cs. c < length (conns w)" and "invoke R n cs w = Inr w'"
  shows "\<forall>c\<in>set cs. \<not> connected w' c"
  using assms
proof (induction cs arbitrary: w)
  case Nil
  then show ?case by simp
next
  case (Cons c cs)
  have lt: "c < length (conns w)" using Cons.prems(2) by simp
  show ?case
  proof (cases "connected w c")
    case False
    then have i: "invoke R n cs w = Inr w'" using Cons.prems(3) by simp
    have "\<forall>c\<in>set cs. \<not> connected w' c"
      using Cons.IH[OF Cons.prems(1) _ i] Cons.prems(2) by simp
    moreover have "\<not> connected w' c"
      using disconnected_for_ever(2)[OF Cons.prems(1) lt False, of R n cs] i by simp
    ultimately show ?thesis by simp
  next
    case True
    let ?w1 = "(disconnect c w)\<lparr>trace := trace w @ [Slot c, Begin (slot_of w c) False]\<rparr>"
    have cb: "callback c w = Inr (slot_of w c, ?w1)" by (rule callback_wf[OF Cons.prems(1) True])
    obtain m where n: "n = Suc m" using Cons.prems(3) True by (cases n) simp_all
    obtain w2 where r: "run R m (R (slot_of w c)) ?w1 = Inr w2"
      and i: "invoke R n cs (log_event (End (slot_of w c)) w2) = Inr w'"
      using Cons.prems(3) True n cb by (auto split: sum.splits)
    have wf1: "wf_world ?w1" using Cons.prems(1) by (simp add: wf_world_disconnect)
    have d1: "c < length (conns ?w1)" "\<not> connected ?w1 c" using lt by simp_all
    from disconnected_for_ever(1)[OF wf1 d1, of R m "R (slot_of w c)"] r
    have wf2: "wf_world w2" and d2: "c < length (conns w2)" "\<not> connected w2 c" by simp_all
    let ?w3 = "log_event (End (slot_of w c)) w2"
    have wf3: "wf_world ?w3" and d3: "c < length (conns ?w3)" "\<not> connected ?w3 c"
      using wf2 d2 by simp_all
    have "length (conns ?w1) \<le> length (conns w2)"
      using run_old_bodies(1)[of ?w1 R m "R (slot_of w c)"] r by simp
    then have lt3: "\<forall>c\<in>set cs. c < length (conns ?w3)" using Cons.prems(2) by auto
    have "\<forall>c\<in>set cs. \<not> connected w' c" by (rule Cons.IH[OF wf3 lt3 i])
    moreover have "\<not> connected w' c"
      using disconnected_for_ever(2)[OF wf3 d3, of R n cs] i by simp
    ultimately show ?thesis by simp
  qed
qed

lemma belongs_upd [simp]:
  "belongs (w\<lparr>listeners := ls\<rparr>) c g = belongs w c g"
  "belongs (w\<lparr>conns := cn\<rparr>) c g = belongs w c g"
  "belongs (w\<lparr>futures := fs\<rparr>) c g = belongs w c g"
  "belongs (w\<lparr>trace := tr\<rparr>) c g = belongs w c g"
  "belongs (log_event e w) c g = belongs w c g"
  "belongs (disconnect c' w) c g = belongs w c g"
  "belongs (scoped_disconnect co w) c g = belongs w c g"
  "belongs (fold disconnect cs w) c g = belongs w c g"
  by (simp_all add: belongs_def)

lemma belongs_features_upd:
  assumes "belongs w c g" and "c \<in> set (f_s F) \<Longrightarrow> g' = g"
  shows "belongs (w\<lparr>features := (features w)(g' \<mapsto> F)\<rparr>) c g"
  using assms unfolding belongs_def by simp

lemma belongs_features_del:
  "belongs w c g \<Longrightarrow> belongs (w\<lparr>features := (features w)(g' := None)\<rparr>) c g"
  unfolding belongs_def by simp

lemma belongsD: "belongs w c g \<Longrightarrow> features w g' = Some f' \<Longrightarrow> c \<in> set (f_s f') \<Longrightarrow> g' = g"
  unfolding belongs_def by blast

lemma begin_op_features:
  assumes "begin_op x w = Inr (w1, cs)" and "features w1 g' = Some f1"
  shows "f_s f1 = [] \<or> (\<exists>f. features w g' = Some f \<and>
           (f_s f1 = f_s f \<or>
            (\<exists>l. x = WhenEnabled g' l) \<and> f_s f1 = f_s f @ [length (conns w)]))"
  using assms
  by (cases x)
     (auto simp: construct_def enable_eq is_enabled_def when_enabled_future_def when_enabled_Inr
        new_listener_def destroy_listener_def destroy_feature_def get_shared_future_def
        Let_def split: option.splits if_splits prod.splits)

lemma begin_op_belongs:
  assumes b: "begin_op x w = Inr (w1, cs)" and o: "belongs w c g" and c: "c < length (conns w)"
  shows "belongs w1 c g"
  unfolding belongs_def
proof (intro allI impI)
  fix g' f1 assume f1: "features w1 g' = Some f1" and m: "c \<in> set (f_s f1)"
  from begin_op_features[OF b f1] m obtain f where
    "features w g' = Some f" "f_s f1 = f_s f \<or> f_s f1 = f_s f @ [length (conns w)]"
    by auto
  then have "features w g' = Some f" "c \<in> set (f_s f)" using m c by auto
  then show "g' = g" by (rule belongsD[OF o])
qed

text \<open>A call that does not cancel the registration leaves its body connected.\<close>

lemma begin_op_keeps:
  assumes wf: "wf_world w" and b: "begin_op x w = Inr (w1, cs)"
      and c: "connected w c" and l: "slot_of w c = l" and o: "belongs w c g"
      and nc: "\<not> cancels g l x"
  shows "connected w1 c"
proof -
  have other: "l_conn L \<noteq> Some c" if "listeners w l' = Some L" "l' \<noteq> l" for l' L
    using wf_world_l_slot[OF wf that(1)] that(2) l by auto
  show ?thesis
  proof (cases x)
    case (WhenEnabled g' l')
    then have ne: "l' \<noteq> l" using nc by simp
    from b WhenEnabled obtain f L where L: "listeners w l' = Some L"
      and w1: "w1 = set_connection l' L (length (conns w)) (snd (connect g' f l' w))"
      by (auto simp: when_enabled_Inr)
    show ?thesis unfolding w1 using c other[OF L ne] by simp
  next
    case (DestroyListener l')
    then have ne: "l' \<noteq> l" using nc by simp
    from b DestroyListener obtain L where L: "listeners w l' = Some L"
      and w1: "w1 = (scoped_disconnect (l_conn L) w)\<lparr>listeners := (listeners w)(l' := None)\<rparr>"
      by (auto simp: destroy_listener_def split: option.splits)
    show ?thesis unfolding w1 using c other[OF L ne] by simp
  next
    case (DestroyFeature g')
    then have ne: "g' \<noteq> g" using nc by simp
    from b DestroyFeature obtain f where f: "features w g' = Some f"
      and w1: "w1 = (fold disconnect (f_s f) w)\<lparr>features := (features w)(g' := None),
                       futures := mark Broken (sp_peers (f_pr f)) (futures w)\<rparr>"
      by (auto simp: destroy_feature_def split: option.splits)
    have "c \<notin> set (f_s f)" using belongsD[OF o f] ne by blast
    then show ?thesis unfolding w1 using c by simp
  next
    case (Construct g' nm en)
    then show ?thesis using b c by (auto simp: construct_def connected_def split: option.splits)
  next
    case (Enable g')
    then show ?thesis using b c by (auto simp: enable_eq connected_def split: option.splits)
  next
    case (IsEnabled g')
    then show ?thesis using b c by (auto simp: is_enabled_def split: option.splits)
  next
    case (WhenEnabledFuture g')
    then show ?thesis using b c
      by (auto simp: when_enabled_future_def connected_def split: option.splits prod.splits)
  next
    case (NewListener l')
    then show ?thesis using b c by (auto simp: new_listener_def split: option.splits)
  qed
qed

text \<open>The body of a registration stays connected until its slot is called, which
  enters the listener's reaction, or until a call cancels the registration.\<close>

lemma registration_served:
  assumes wf: "wf_world w" and c: "connected w c" and l: "slot_of w c = l"
      and o: "belongs w c g"
  shows "\<exists>es. trace (final (run R n xs w)) = trace w @ es \<and>
           (connected (final (run R n xs w)) c \<or> fired c l es \<or> cancelled g l es)"
    and "\<exists>es. trace (final (invoke R n cs w)) = trace w @ es \<and>
           (connected (final (invoke R n cs w)) c \<or> fired c l es \<or> cancelled g l es)"
proof -
  let ?P = "\<lambda>w'. wf_world w' \<and> c < length (conns w') \<and> slot_of w' c = l \<and> belongs w' c g \<and>
      (\<exists>es. trace w' = trace w @ es \<and> (connected w' c \<or> fired c l es \<or> cancelled g l es))"
  have F: "?P (log_event (Call x) w')" if "?P w'" for x w'
  proof -
    from that obtain es where es: "trace w' = trace w @ es"
      "connected w' c \<or> fired c l es \<or> cancelled g l es" by blast
    have "trace (log_event (Call x) w') = trace w @ (es @ [Call x])" using es(1) by simp
    moreover have "connected (log_event (Call x) w') c \<or> fired c l (es @ [Call x]) \<or>
        cancelled g l (es @ [Call x])"
      using es(2) fired_append1 by auto
    ultimately have "\<exists>es'. trace (log_event (Call x) w') = trace w @ es' \<and>
        (connected (log_event (Call x) w') c \<or> fired c l es' \<or> cancelled g l es')" by blast
    moreover have "wf_world (log_event (Call x) w')" "c < length (conns (log_event (Call x) w'))"
      "slot_of (log_event (Call x) w') c = l" "belongs (log_event (Call x) w') c g"
      using that by simp_all
    ultimately show ?thesis by blast
  qed
  have B: "?P w1" if p: "?P w'" and b: "begin_op x (log_event (Call x) w') = Inr (w1, cs)"
    for x w' w1 cs
  proof -
    from p obtain es where es: "trace w' = trace w @ es"
      "connected w' c \<or> fired c l es \<or> cancelled g l es" by blast
    let ?w0 = "log_event (Call x) w'"
    have wf0: "wf_world ?w0" and c0: "c < length (conns ?w0)" and l0: "slot_of ?w0 c = l"
      and o0: "belongs ?w0 c g" using p by simp_all
    from begin_op_trace[OF b] obtain es' where es': "trace w1 = trace ?w0 @ es'" by blast
    then have tr: "trace w1 = trace w @ (es @ Call x # es')" using es(1) by simp
    have "connected w1 c \<or> fired c l (es @ Call x # es') \<or> cancelled g l (es @ Call x # es')"
    proof (cases "cancels g l x")
      case True
      then show ?thesis by simp
    next
      case False
      show ?thesis
      proof (cases "connected w' c")
        case True
        then have "connected w1 c" using begin_op_keeps[OF wf0 b _ l0 o0 False] by simp
        then show ?thesis by simp
      next
        case False
        then have "fired c l es \<or> cancelled g l es" using es(2) by simp
        then show ?thesis using fired_append1 by auto
      qed
    qed
    moreover have "wf_world w1" by (rule wf_world_begin_op[OF wf0 b])
    moreover have "c < length (conns w1)" using begin_op_conns(1)[OF b] c0 by simp
    moreover have "slot_of w1 c = l" using begin_op_conns(3)[OF b c0] l0 by simp
    moreover have "belongs w1 c g" by (rule begin_op_belongs[OF b o0 c0])
    ultimately show ?thesis using tr by blast
  qed
  have T: "?P (log_event e w')" if "?P w'" for e w'
  proof -
    from that obtain es where es: "trace w' = trace w @ es"
      "connected w' c \<or> fired c l es \<or> cancelled g l es" by blast
    have "trace (log_event e w') = trace w @ (es @ [e])" using es(1) by simp
    moreover have "connected (log_event e w') c \<or> fired c l (es @ [e]) \<or> cancelled g l (es @ [e])"
      using es(2) fired_append1 by auto
    ultimately have "\<exists>es'. trace (log_event e w') = trace w @ es' \<and>
        (connected (log_event e w') c \<or> fired c l es' \<or> cancelled g l es')" by blast
    moreover have "wf_world (log_event e w')" "c < length (conns (log_event e w'))"
      "slot_of (log_event e w') c = l" "belongs (log_event e w') c g"
      using that by simp_all
    ultimately show ?thesis by blast
  qed
  have C: "?P w1" if p: "?P w'" and cc: "connected w' c'" and cb: "callback c' w' = Inr (l', w1)"
    for c' w' l' w1
  proof -
    from p obtain es where es: "trace w' = trace w @ es"
      "connected w' c \<or> fired c l es \<or> cancelled g l es" by blast
    have wf': "wf_world w'" using p by simp
    have w1: "w1 = (disconnect c' w')\<lparr>trace := trace w' @ [Slot c', Begin (slot_of w' c') False]\<rparr>"
      using callback_wf[OF wf' cc] cb by simp
    have tr: "trace w1 = trace w @ (es @ [Slot c', Begin (slot_of w' c') False])"
      using es(1) by (simp add: w1)
    have "connected w1 c \<or> fired c l (es @ [Slot c', Begin (slot_of w' c') False]) \<or>
        cancelled g l (es @ [Slot c', Begin (slot_of w' c') False])"
    proof (cases "c' = c")
      case True
      then have "slot_of w' c' = l" using p by simp
      then show ?thesis using True by simp
    next
      case False
      then show ?thesis using es(2) fired_append1 by (auto simp: w1)
    qed
    then have "\<exists>es'. trace w1 = trace w @ es' \<and>
        (connected w1 c \<or> fired c l es' \<or> cancelled g l es')" using tr by blast
    moreover have "wf_world w1" using wf' by (simp add: w1 wf_world_disconnect)
    moreover have "c < length (conns w1)" "slot_of w1 c = l" "belongs w1 c g"
      using p by (simp_all add: w1)
    ultimately show ?thesis by blast
  qed
  have p0: "?P w" using assms connected_less[OF c] by (simp add: cancelled_def)
  have R1: "?P (final (run R n xs w))"
  proof (rule run_invoke_invariant_call(1)[where P = ?P])
    show "?P w" by (rule p0)
  qed (rule F B T C; assumption)+
  have R2: "?P (final (invoke R n cs w))"
  proof (rule run_invoke_invariant_call(2)[where P = ?P])
    show "?P w" by (rule p0)
  qed (rule F B T C; assumption)+
  show "\<exists>es. trace (final (run R n xs w)) = trace w @ es \<and>
           (connected (final (run R n xs w)) c \<or> fired c l es \<or> cancelled g l es)"
    using R1 by blast
  show "\<exists>es. trace (final (invoke R n cs w)) = trace w @ es \<and>
           (connected (final (invoke R n cs w)) c \<or> fired c l es \<or> cancelled g l es)"
    using R2 by blast
qed

lemma signals_wf_empty: "signals_wf empty_world"
  by (simp add: signals_wf_def empty_world_def)

lemma signals_wf_features: "features w' = features w \<Longrightarrow> signals_wf w' = signals_wf w"
  by (simp add: signals_wf_def belongs_def)

lemma signals_wf_log_event [simp]: "signals_wf (log_event e w) = signals_wf w"
  by (rule signals_wf_features) simp

lemma signals_wfD:
  assumes "signals_wf w" and "features w g = Some f"
  shows "sorted_wrt (<) (f_s f)" and "c \<in> set (f_s f) \<Longrightarrow> belongs w c g"
  using assms unfolding signals_wf_def by blast+

lemma begin_op_new_body:
  assumes wf: "wf_world w" and b: "begin_op x w = Inr (w1, cs)"
      and f1: "features w1 g1 = Some f1" "length (conns w) \<in> set (f_s f1)"
      and f2: "features w1 g2 = Some f2" "length (conns w) \<in> set (f_s f2)"
  shows "g1 = g2"
proof -
  have old: "length (conns w) \<notin> set (f_s f)" if "features w g = Some f" for g f
    using wf_world_f_s[OF wf that] by auto
  have "\<exists>l. x = WhenEnabled g' l"
    if "features w1 g' = Some f'" "length (conns w) \<in> set (f_s f')" for g' f'
  proof -
    from begin_op_features[OF b that(1)] that(2) obtain f where
      f: "features w g' = Some f"
        "f_s f' = f_s f \<or> (\<exists>l. x = WhenEnabled g' l) \<and> f_s f' = f_s f @ [length (conns w)]"
      by auto
    show ?thesis using f(2) old[OF f(1)] that(2) by auto
  qed
  from this[OF f1] this[OF f2] show ?thesis by auto
qed

lemma begin_op_signals_wf:
  assumes wf: "wf_world w" and s: "signals_wf w" and b: "begin_op x w = Inr (w1, cs)"
  shows "signals_wf w1"
  unfolding signals_wf_def
proof (intro allI impI)
  fix g f1 assume f1: "features w1 g = Some f1"
  from begin_op_features[OF b f1] consider
      (empty) "f_s f1 = []"
    | (same) f where "features w g = Some f" "f_s f1 = f_s f"
    | (more) f where "features w g = Some f" "f_s f1 = f_s f @ [length (conns w)]"
    by blast
  then show "sorted_wrt (<) (f_s f1) \<and> (\<forall>c\<in>set (f_s f1). belongs w1 c g)"
  proof cases
    case empty
    then show ?thesis by simp
  next
    case (same f)
    have "belongs w1 c g" if "c \<in> set (f_s f)" for c
      using begin_op_belongs[OF b signals_wfD(2)[OF s same(1) that]] wf_world_f_s[OF wf same(1)] that
      by blast
    then show ?thesis using signals_wfD(1)[OF s same(1)] same(2) by simp
  next
    case (more f)
    have lt: "\<forall>c\<in>set (f_s f). c < length (conns w)" using wf_world_f_s[OF wf more(1)] by blast
    have old: "belongs w1 c g" if "c \<in> set (f_s f)" for c
      using begin_op_belongs[OF b signals_wfD(2)[OF s more(1) that]] lt that by blast
    have new: "belongs w1 (length (conns w)) g"
      unfolding belongs_def
    proof (intro allI impI)
      fix g' f' assume "features w1 g' = Some f'" "length (conns w) \<in> set (f_s f')"
      then show "g' = g" using begin_op_new_body[OF wf b _ _ f1] more(2) by simp
    qed
    have "sorted_wrt (<) (f_s f @ [length (conns w)])"
      using signals_wfD(1)[OF s more(1)] lt by (simp add: sorted_wrt_append)
    then show ?thesis using old new more(2) by auto
  qed
qed

lemma run_signals_wf:
  assumes "wf_world w" and "signals_wf w"
  shows "signals_wf (final (run R n xs w))"
    and "signals_wf (final (invoke R n cs w))"
proof -
  let ?P = "\<lambda>w. wf_world w \<and> signals_wf w"
  have B: "\<And>x w w1 cs. ?P w \<Longrightarrow> begin_op x w = Inr (w1, cs) \<Longrightarrow> ?P w1"
    using wf_world_begin_op begin_op_signals_wf by blast
  have T: "\<And>e w. ?P w \<Longrightarrow> bracket e \<Longrightarrow> ?P (log_event e w)" by simp
  have C: "\<And>c w l w1. ?P w \<Longrightarrow> connected w c \<Longrightarrow> callback c w = Inr (l, w1) \<Longrightarrow> ?P w1"
    using wf_world_callback signals_wf_features[OF callback_Inr(5)] by blast
  have p0: "?P w" using assms by simp
  have "?P (final (run R n xs w))"
  proof (rule run_invoke_invariant(1)[where P = ?P])
    show "?P w" by (rule p0)
  qed (rule B T C; assumption)+
  then show "signals_wf (final (run R n xs w))" by simp
  have "?P (final (invoke R n cs w))"
  proof (rule run_invoke_invariant(2)[where P = ?P])
    show "?P w" by (rule p0)
  qed (rule B T C; assumption)+
  then show "signals_wf (final (invoke R n cs w))" by simp
qed

lemma signals_wf_three_waiting: "signals_wf three_waiting"
  unfolding three_waiting_def by (rule run_signals_wf(1)[OF wf_world_empty signals_wf_empty])


lemma signals_wf_all_fired: "signals_wf all_fired"
  unfolding all_fired_def by (rule run_signals_wf(1)[OF wf_three_waiting signals_wf_three_waiting])


text \<open>A transition that returns.\<close>

lemma transition_pass:
  assumes wf: "wf_world w" and f: "features w g = Some f"
      and r: "run R n [Enable g] w = Inr w'"
  defines "f' \<equiv> f\<lparr>f_enabled := True, f_enable_calls := Suc (f_enable_calls f),
                    f_pr := f_pr f\<lparr>sp_available := True, sp_peers := []\<rparr>\<rparr>"
  defines "w1 \<equiv> w\<lparr>features := (features w)(g \<mapsto> f'),
                    futures := mark Ready (sp_peers (f_pr f)) (futures w),
                    trace := trace w @ [Call (Enable g), Flagged g, Resolved g True]\<rparr>"
  shows "enable g (log_event (Call (Enable g)) w) = Inr (w1, f_s f)"
    and "\<exists>w2. invoke R n (f_s f) w1 = Inr w2 \<and> w' = log_event (Ret (Enable g)) w2"
    and "wf_world w1"
    and "connected w1 c = connected w c" and "slot_of w1 c = slot_of w c"
    and "belongs w c g \<Longrightarrow> belongs w1 c g"
    and "length (conns w1) = length (conns w)"
    and "features w1 g = Some f'" and "f_s f' = f_s f"
    and "trace w1 = trace w @ [Call (Enable g), Flagged g, Resolved g True]"
proof -
  let ?x = "Enable g"
  show "features w1 g = Some f'" "f_s f' = f_s f"
    "trace w1 = trace w @ [Call (Enable g), Flagged g, Resolved g True]"
    by (simp_all add: w1_def f'_def)
  show e: "enable g (log_event (Call ?x) w) = Inr (w1, f_s f)"
    using f by (simp add: enable_eq set_value_def w1_def f'_def log_event_def)
  then have b: "begin_op ?x (log_event (Call ?x) w) = Inr (w1, f_s f)" by simp
  show "\<exists>w2. invoke R n (f_s f) w1 = Inr w2 \<and> w' = log_event (Ret ?x) w2"
    using r b by (auto split: sum.splits)
  show "wf_world w1" using wf_world_begin_op[OF _ b] wf by simp
  show "connected w1 c = connected w c" by (simp add: w1_def connected_def)
  show "slot_of w1 c = slot_of w c" by (simp add: w1_def slot_of_def)
  show "belongs w1 c g" if "belongs w c g"
    using that f unfolding belongs_def by (auto simp: w1_def f'_def split: if_splits)
  show "length (conns w1) = length (conns w)" by (simp add: w1_def)
qed

lemmas world_eval =
  broadcasting_eq three_waiting_eq all_fired_eq when_enabled_def connect_def set_connection_def
  scoped_disconnect_def disconnect_def callback_def slot_of_def connected_def has_live_def
  log_event_def destroy_listener_def new_listener_def enable_eq set_value_def mark_def
  new_events_def Let_def numeral_2_eq_2 numeral_3_eq_3




lemma slots_append [simp]: "slots (es @ es') = slots es @ slots es'"
  by (induction es rule: slots.induct) simp_all

lemma slots_not_fires: "\<forall>e\<in>set es. \<not> fires e \<Longrightarrow> slots es = []"
proof (induction es)
  case Nil
  then show ?case by simp
next
  case (Cons e es)
  then show ?case by (cases e) simp_all
qed

lemma set_slots: "c \<in> set (slots es) \<longleftrightarrow> Slot c \<in> set es"
  by (induction es rule: slots.induct) auto

lemma sorted_subseq_of:
  fixes xs :: "nat list"
  assumes "sorted_wrt (<) xs" and "sorted_wrt (<) ys" and "set xs \<subseteq> set ys"
  shows "subseq_of xs ys"
  using assms
proof (induction ys arbitrary: xs)
  case Nil
  then show ?case by simp
next
  case (Cons y ys)
  show ?case
  proof (cases xs)
    case Nil
    then show ?thesis by simp
  next
    case (Cons x xs')
    have ys: "sorted_wrt (<) ys" "\<forall>z\<in>set ys. y < z" using Cons.prems(2) by simp_all
    have xs: "sorted_wrt (<) xs'" "\<forall>z\<in>set xs'. x < z" using Cons.prems(1) Cons by simp_all
    show ?thesis
    proof (cases "x = y")
      case True
      have "set xs' \<subseteq> set ys"
      proof
        fix z assume z: "z \<in> set xs'"
        then have "y < z" using xs(2) True by simp
        moreover have "z \<in> set (y # ys)" using z Cons.prems(3) Cons by auto
        ultimately show "z \<in> set ys" by auto
      qed
      then show ?thesis using Cons.IH[OF xs(1) ys(1)] True Cons by simp
    next
      case False
      then have "x \<in> set ys" using Cons.prems(3) Cons by auto
      then have "y < x" using ys(2) by simp
      then have "\<forall>z\<in>set xs. y < z" using xs(2) Cons by auto
      then have "set xs \<subseteq> set ys" using Cons.prems(3) by fastforce
      then show ?thesis using Cons.IH[OF Cons.prems(1) ys(1)] False Cons by simp
    qed
  qed
qed

lemma run_trace:
  shows "\<exists>es. trace (final (run R n xs w)) = trace w @ es"
    and "\<exists>es. trace (final (invoke R n cs w)) = trace w @ es"
proof -
  let ?P = "\<lambda>w'. \<exists>es. trace w' = trace w @ es"
  have B: "?P w1" if "?P w'" "begin_op x w' = Inr (w1, cs)" for x w' w1 cs
    using that begin_op_trace[OF that(2)] by auto
  have T: "?P (log_event e w')" if "?P w'" for e w' using that by auto
  have C: "?P w1" if "?P w'" "callback c w' = Inr (l, w1)" for c w' l w1
    using that by (auto simp: callback_def Let_def split: option.splits)
  have p0: "?P w" by simp
  show "\<exists>es. trace (final (run R n xs w)) = trace w @ es"
  proof (rule run_invoke_invariant(1)[where P = ?P])
    show "?P w" by (rule p0)
  qed (rule B T C; assumption)+
  show "\<exists>es. trace (final (invoke R n cs w)) = trace w @ es"
  proof (rule run_invoke_invariant(2)[where P = ?P])
    show "?P w" by (rule p0)
  qed (rule B T C; assumption)+
qed

lemma begin_op_pass:
  assumes "begin_op x w = Inr (w1, cs)"
  shows "cs = [] \<or> (\<exists>g f1. features w1 g = Some f1 \<and> cs = f_s f1)"
  using assms
  by (cases x)
     (auto simp: construct_def enable_eq is_enabled_def when_enabled_future_def when_enabled_Inr
        new_listener_def destroy_listener_def destroy_feature_def get_shared_future_def
        Let_def split: option.splits if_splits prod.splits)

lemma begin_op_stays:
  assumes "begin_op x w = Inr (w1, cs)" and "features w g = Some f" and "c \<in> set (f_s f)"
      and "connected w1 c"
  shows "\<exists>f1. features w1 g = Some f1 \<and> c \<in> set (f_s f1)"
  using assms
  by (cases x)
     (auto simp: construct_def enable_eq is_enabled_def when_enabled_future_def when_enabled_Inr
        new_listener_def destroy_listener_def destroy_feature_def get_shared_future_def
        Let_def split: option.splits if_splits prod.splits)

lemma tracked_log_event [simp]: "tracked B g (log_event e w) = tracked B g w"
  by (simp add: tracked_def)

lemma tracked_begin_op:
  assumes t: "tracked B g w" and b: "begin_op x w = Inr (w1, cs)"
  shows "tracked B g w1"
proof -
  have wf: "wf_world w" and s: "signals_wf w" using t by (simp_all add: tracked_def)
  have "c < length (conns w1) \<and> belongs w1 c g \<and>
        (connected w1 c \<longrightarrow> (\<exists>f. features w1 g = Some f \<and> c \<in> set (f_s f)))" if "c \<in> B" for c
  proof (intro conjI impI)
    have c: "c < length (conns w)" "belongs w c g"
      "connected w c \<longrightarrow> (\<exists>f. features w g = Some f \<and> c \<in> set (f_s f))"
      using t that by (simp_all add: tracked_def)
    show "c < length (conns w1)" using begin_op_conns(1)[OF b] c(1) by simp
    show "belongs w1 c g" by (rule begin_op_belongs[OF b c(2) c(1)])
    assume "connected w1 c"
    moreover from this have "connected w c" by (rule begin_op_conns(2)[OF b c(1)])
    ultimately show "\<exists>f. features w1 g = Some f \<and> c \<in> set (f_s f)"
      using c(3) begin_op_stays[OF b] by blast
  qed
  then show ?thesis
    using wf_world_begin_op[OF wf b] begin_op_signals_wf[OF wf s b] by (simp add: tracked_def)
qed

lemma tracked_callback:
  assumes t: "tracked B g w" and c: "connected w c" and cb: "callback c w = Inr (l, w1)"
  shows "tracked B g w1"
proof -
  have wf: "wf_world w" using t by (simp add: tracked_def)
  have w1: "w1 = (disconnect c w)\<lparr>trace := trace w @ [Slot c, Begin (slot_of w c) False]\<rparr>"
    using callback_wf[OF wf c] cb by simp
  have "signals_wf w1" using t signals_wf_features[of w1 w] by (simp add: w1 tracked_def)
  then show ?thesis using t wf by (simp add: tracked_def w1 wf_world_disconnect)
qed

lemma run_tracked:
  assumes "tracked B g w"
  shows "tracked B g (final (run R n xs w))"
    and "tracked B g (final (invoke R n cs w))"
proof -
  have B: "\<And>x w w1 cs. tracked B g w \<Longrightarrow> begin_op x w = Inr (w1, cs) \<Longrightarrow> tracked B g w1"
    by (rule tracked_begin_op)
  have T: "\<And>e w. tracked B g w \<Longrightarrow> bracket e \<Longrightarrow> tracked B g (log_event e w)" by simp
  have C: "\<And>c w l w1. tracked B g w \<Longrightarrow> connected w c \<Longrightarrow> callback c w = Inr (l, w1) \<Longrightarrow>
      tracked B g w1"
    by (rule tracked_callback)
  show "tracked B g (final (run R n xs w))"
    by (rule run_invoke_invariant(1)[where P = "tracked B g", OF B T C assms])
  show "tracked B g (final (invoke R n cs w))"
    by (rule run_invoke_invariant(2)[where P = "tracked B g", OF B T C assms])
qed

lemma in_order_silent:
  assumes o: "in_order B k w" and k: "k \<le> length (trace w)"
      and tr: "trace w1 = trace w @ es" and ns: "slots es = []"
      and co: "\<And>c. c \<in> B \<Longrightarrow> connected w1 c \<Longrightarrow> connected w c"
  shows "in_order B k w1"
proof -
  have "slots (drop k (trace w1)) = slots (drop k (trace w))" using k tr ns by simp
  then show ?thesis using o co unfolding in_order_def by auto
qed

lemma in_order_call:
  assumes o: "in_order B k w" and k: "k \<le> length (trace w)"
      and a: "ahead B (c # cs) w" and s: "sorted_wrt (<) (c # cs)" and c: "connected w c"
  shows "in_order B k ((disconnect c w)\<lparr>trace := trace w @ [Slot c, Begin l False]\<rparr>)"
proof -
  let ?w1 = "(disconnect c w)\<lparr>trace := trace w @ [Slot c, Begin l False]\<rparr>"
  let ?old = "slots (drop k (trace w))"
  have sl: "slots (drop k (trace ?w1)) = ?old @ [c]" using k by simp
  have o1: "c' < c1" if "c1 \<in> B" "c' \<in> B" "connected w c1" "c' \<in> set ?old" for c1 c'
    using o that unfolding in_order_def by blast
  have o2: "sorted_wrt (<) (filter (\<lambda>c. c \<in> B) ?old)" using o unfolding in_order_def by blast
  have A: "c' < c1" if "c1 \<in> B" "c' \<in> B" "connected ?w1 c1" "c' \<in> set (?old @ [c])" for c1 c'
  proof (cases "c' \<in> set ?old")
    case True
    then show ?thesis using o1[OF that(1,2)] that(3) by simp
  next
    case False
    then have e: "c' = c" using that(4) by simp
    have c1: "connected w c1" "c1 \<noteq> c" using that(3) by simp_all
    have "c1 \<in> set (c # cs) \<or> c < c1"
      using a that(1,2) c1(1) e unfolding ahead_def by auto
    then show ?thesis using s c1(2) e by auto
  qed
  have Bs: "sorted_wrt (<) (filter (\<lambda>c. c \<in> B) (?old @ [c]))"
  proof (cases "c \<in> B")
    case True
    have "\<forall>c'\<in>set (filter (\<lambda>c. c \<in> B) ?old). c' < c" using o1[OF True _ c] by auto
    then show ?thesis using o2 True by (simp add: sorted_wrt_append)
  next
    case False
    then show ?thesis using o2 by simp
  qed
  show ?thesis unfolding in_order_def sl using A Bs by blast
qed

lemma ahead_skip:
  assumes "ahead B (c # cs) w" and "\<not> connected w c"
  shows "ahead B cs w"
  using assms unfolding ahead_def by auto

lemma ahead_later:
  assumes a: "ahead B (c # cs) w" and old: "\<forall>c'\<in>B. c' < length (conns w)"
      and co: "\<And>c'. c' < length (conns w) \<Longrightarrow> connected w3 c' \<Longrightarrow> connected w c' \<and> c' \<noteq> c"
  shows "ahead B cs w3"
  unfolding ahead_def
proof (intro ballI impI)
  fix c1 c' assume c1: "c1 \<in> set cs" "c1 \<in> B" and c': "c' \<in> B" "connected w3 c'"
  have "connected w c'" "c' \<noteq> c" using co[OF _ c'(2)] old c'(1) by auto
  moreover have "c' \<in> set (c # cs) \<or> c1 < c'"
    using a c1 c'(1) \<open>connected w c'\<close> unfolding ahead_def by auto
  ultimately show "c' \<in> set cs \<or> c1 < c'" by auto
qed

lemma ahead_begin_op:
  assumes t1: "tracked B g w1" and b: "begin_op x w = Inr (w1, cs)"
  shows "ahead B cs w1" and "sorted_wrt (<) cs"
proof -
  have s1: "signals_wf w1" using t1 by (simp add: tracked_def)
  from begin_op_pass[OF b] consider "cs = []" | g' f1 where "features w1 g' = Some f1" "cs = f_s f1"
    by blast
  then have "ahead B cs w1 \<and> sorted_wrt (<) cs"
  proof cases
    case 1
    then show ?thesis by (simp add: ahead_def)
  next
    case (2 g' f1)
    have "c' \<in> set cs \<or> c < c'" if h: "c \<in> set cs" "c \<in> B" "c' \<in> B" "connected w1 c'" for c c'
    proof -
      have "belongs w1 c g" using t1 h(2) by (simp add: tracked_def)
      then have g': "g' = g" using belongsD 2 h(1) by blast
      obtain f where "features w1 g = Some f" "c' \<in> set (f_s f)"
        using t1 h(3,4) unfolding tracked_def by blast
      then show ?thesis using 2 g' by simp
    qed
    then show ?thesis using signals_wfD(1)[OF s1 2(1)] 2(2) unfolding ahead_def by blast
  qed
  then show "ahead B cs w1" and "sorted_wrt (<) cs" by simp_all
qed

text \<open>In a run that returns, the slots of the bodies of \<open>B\<close> are called in increasing
  order.\<close>

lemma calls_in_order:
  shows "tracked B g w \<Longrightarrow> k \<le> length (trace w) \<Longrightarrow> in_order B k w \<Longrightarrow>
           run R n xs w = Inr w' \<Longrightarrow> in_order B k w'"
    and "tracked B g w \<Longrightarrow> k \<le> length (trace w) \<Longrightarrow> in_order B k w \<Longrightarrow>
           ahead B cs w \<Longrightarrow> sorted_wrt (<) cs \<Longrightarrow>
           invoke R n cs w = Inr w' \<Longrightarrow> in_order B k w'"
proof (induction R n xs w and R n cs w arbitrary: w' and w' rule: run_invoke.induct)
  case (1 R n w)
  then show ?case by simp
next
  case (2 R n x xs w)
  let ?w0 = "log_event (Call x) w"
  note t = "2.prems"(1) and k = "2.prems"(2) and o = "2.prems"(3) and r = "2.prems"(4)
  from r obtain p where bp: "begin_op x ?w0 = Inr p" by (cases "begin_op x ?w0") simp_all
  obtain w1 cs where p: "p = (w1, cs)" by (cases p)
  have b: "begin_op x ?w0 = Inr (w1, cs)" using bp p by simp
  from r b obtain w2 where i: "invoke R n cs w1 = Inr w2"
    by (cases "invoke R n cs w1") simp_all
  have r2: "run R n xs (log_event (Ret x) w2) = Inr w'" using r b i by simp
  have t1: "tracked B g w1" using tracked_begin_op[OF _ b] t by simp
  from begin_op_trace[OF b] obtain es where es: "trace w1 = trace ?w0 @ es" "\<forall>e\<in>set es. \<not> fires e"
    by blast
  have tr1: "trace w1 = trace w @ (Call x # es)" using es(1) by simp
  have k1: "k \<le> length (trace w1)" using k tr1 by simp
  have old: "\<forall>c\<in>B. c < length (conns ?w0)" using t by (simp add: tracked_def)
  have o1: "in_order B k w1"
  proof (rule in_order_silent[OF o k tr1])
    show "slots (Call x # es) = []" using slots_not_fires[OF es(2)] by simp
    show "connected w c" if "c \<in> B" "connected w1 c" for c
      using begin_op_conns(2)[OF b _ that(2)] old that(1) by simp
  qed
  note a1 = ahead_begin_op[OF t1 b]
  have o2: "in_order B k w2" using "2.IH"(1)[OF b refl t1 k1 o1 a1 i] .
  have t2: "tracked B g w2" using run_tracked(2)[OF t1, of R n cs] i by simp
  from run_trace(2)[of R n cs w1] i obtain es2 where "trace w2 = trace w1 @ es2" by auto
  then have k2: "k \<le> length (trace w2)" using k1 by simp
  let ?w3 = "log_event (Ret x) w2"
  have t3: "tracked B g ?w3" using t2 by simp
  have k3: "k \<le> length (trace ?w3)" using k2 by simp
  have o3: "in_order B k ?w3"
    by (rule in_order_silent[OF o2 k2, of _ "[Ret x]"]) simp_all
  show ?case using "2.IH"(2)[OF b refl i t3 k3 o3 r2] .
next
  case (3 R n w)
  then show ?case by simp
next
  case (4 R n c cs w)
  note t = "4.prems"(1) and k = "4.prems"(2) and o = "4.prems"(3) and a = "4.prems"(4)
    and s = "4.prems"(5) and i = "4.prems"(6)
  have wf: "wf_world w" using t by (simp add: tracked_def)
  have s': "sorted_wrt (<) cs" using s by simp
  show ?case
  proof (cases "connected w c")
    case False
    have i': "invoke R n cs w = Inr w'" using i False by simp
    show ?thesis using "4.IH"(1)[OF False t k o ahead_skip[OF a False] s' i'] .
  next
    case True
    obtain m where n: "n = Suc m" using i True by (cases n) simp_all
    let ?l = "slot_of w c"
    let ?w1 = "(disconnect c w)\<lparr>trace := trace w @ [Slot c, Begin ?l False]\<rparr>"
    have cb: "callback c w = Inr (?l, ?w1)" by (rule callback_wf[OF wf True])
    from i True n cb obtain w2 where r: "run R m (R ?l) ?w1 = Inr w2"
      by (cases "run R m (R ?l) ?w1") simp_all
    have i3: "invoke R n cs (log_event (End ?l) w2) = Inr w'" using i True n cb r by simp
    have t1: "tracked B g ?w1" by (rule tracked_callback[OF t True cb])
    have k1: "k \<le> length (trace ?w1)" using k by simp
    have o1: "in_order B k ?w1" by (rule in_order_call[OF o k a s True])
    have o2: "in_order B k w2" using "4.IH"(2)[OF _ n cb refl t1 k1 o1 r] True by simp
    have t2: "tracked B g w2" using run_tracked(1)[OF t1, of R m "R ?l"] r by simp
    from run_trace(1)[of R m "R ?l" ?w1] r obtain es2 where "trace w2 = trace ?w1 @ es2" by auto
    then have k2: "k \<le> length (trace w2)" using k1 by simp
    let ?w3 = "log_event (End ?l) w2"
    have t3: "tracked B g ?w3" using t2 by simp
    have k3: "k \<le> length (trace ?w3)" using k2 by simp
    have o3: "in_order B k ?w3"
      by (rule in_order_silent[OF o2 k2, of _ "[End ?l]"]) simp_all
    have old: "\<forall>c'\<in>B. c' < length (conns w)" using t by (simp add: tracked_def)
    have a3: "ahead B cs ?w3"
    proof (rule ahead_later[OF a old])
      fix c' assume c': "c' < length (conns w)" "connected ?w3 c'"
      have "c' < length (conns ?w1)" using c'(1) by simp
      then have "connected ?w1 c'"
        using run_old_bodies(1)[of ?w1 R m "R ?l"] r c'(2) by simp
      then show "connected w c' \<and> c' \<noteq> c" by simp
    qed
    show ?thesis using "4.IH"(3)[OF _ n cb refl r t3 k3 o3 a3 s' i3] True by simp
  qed
qed

text \<open>An invocation of a signal that returns has called the slots of the signal's
  bodies in the order of the signal's list.\<close>

lemma pass_in_order:
  assumes wf: "wf_world w" and s: "signals_wf w" and f: "features w g = Some f"
      and i: "invoke R n (f_s f) w = Inr w'"
  shows "\<exists>es. trace w' = trace w @ es \<and>
           subseq_of (filter (\<lambda>c. c \<in> set (f_s f)) (slots es)) (f_s f)"
proof -
  let ?B = "set (f_s f)"
  let ?k = "length (trace w)"
  have t: "tracked ?B g w"
    using wf s wf_world_f_s[OF wf f] signals_wfD(2)[OF s f] f by (auto simp: tracked_def)
  have o: "in_order ?B ?k w" by (simp add: in_order_def)
  have a: "ahead ?B (f_s f) w" by (simp add: ahead_def)
  have "in_order ?B ?k w'"
    by (rule calls_in_order(2)[OF t _ o a signals_wfD(1)[OF s f] i]) simp
  moreover from run_trace(2)[of R n "f_s f" w] i obtain es where es: "trace w' = trace w @ es"
    by auto
  ultimately have "sorted_wrt (<) (filter (\<lambda>c. c \<in> ?B) (slots es))"
    by (simp add: in_order_def)
  then have "subseq_of (filter (\<lambda>c. c \<in> ?B) (slots es)) (f_s f)"
    by (rule sorted_subseq_of[OF _ signals_wfD(1)[OF s f]]) auto
  then show ?thesis using es by blast
qed

text \<open>An invocation of a signal that returns: every body that was connected has had its
  slot called, entering its listener's reaction, unless a call cancelled its
  registration first; the slots were called in the order of the list; no slot of a
  body that was disconnected was called; and every body is disconnected.\<close>

lemma pass_serves_all:
  assumes wf: "wf_world w" and s: "signals_wf w" and f: "features w g = Some f"
      and i: "invoke R n (f_s f) w = Inr w'"
  shows "\<exists>es. trace w' = trace w @ es \<and>
           (\<forall>c\<in>set (f_s f). connected w c \<longrightarrow>
              fired c (slot_of w c) es \<or> cancelled g (slot_of w c) es) \<and>
           subseq_of (filter (\<lambda>c. c \<in> set (f_s f)) (slots es)) (f_s f) \<and>
           (\<forall>c\<in>set (f_s f). \<not> connected w c \<longrightarrow> Slot c \<notin> set es) \<and>
           (\<forall>c\<in>set (f_s f). \<not> connected w' c)"
proof -
  from run_trace(2)[of R n "f_s f" w] i obtain es where es: "trace w' = trace w @ es" by auto
  have lt: "\<forall>c\<in>set (f_s f). c < length (conns w)" using wf_world_f_s[OF wf f] by blast
  have d: "\<forall>c\<in>set (f_s f). \<not> connected w' c" by (rule invoke_disconnects[OF wf lt i])
  have a: "fired c (slot_of w c) es \<or> cancelled g (slot_of w c) es"
    if c: "c \<in> set (f_s f)" "connected w c" for c
  proof -
    from registration_served(2)[OF wf c(2) refl signals_wfD(2)[OF s f c(1)], of R n "f_s f"] i
    obtain es' where "trace w' = trace w @ es'"
      "connected w' c \<or> fired c (slot_of w c) es' \<or> cancelled g (slot_of w c) es'" by auto
    then show ?thesis using es d c(1) by auto
  qed
  have b: "Slot c \<notin> set es" if c: "c \<in> set (f_s f)" "\<not> connected w c" for c
  proof -
    from disconnected_for_ever(2)[OF wf _ c(2), of R n "f_s f"] lt c(1) i
    obtain es' where "trace w' = trace w @ es'" "Slot c \<notin> set es'" by auto
    then show ?thesis using es by simp
  qed
  from pass_in_order[OF wf s f i] es
  have "subseq_of (filter (\<lambda>c. c \<in> set (f_s f)) (slots es)) (f_s f)" by auto
  then show ?thesis using es a b d by blast
qed












text \<open>No slot is called twice: in every run, complete or not, the bodies whose slots are
  called are distinct, and they are disconnected.\<close>

lemma slots_once:
  assumes "wf_world w"
  shows "\<exists>es. trace (final (run R n xs w)) = trace w @ es \<and> distinct (slots es)"
    and "\<exists>es. trace (final (invoke R n cs w)) = trace w @ es \<and> distinct (slots es)"
proof -
  let ?P = "\<lambda>w'. wf_world w' \<and> (\<exists>es. trace w' = trace w @ es \<and> distinct (slots es) \<and>
      (\<forall>c\<in>set (slots es). c < length (conns w') \<and> \<not> connected w' c))"
  have B: "?P w1" if p: "?P w'" and b: "begin_op x w' = Inr (w1, cs)" for x w' w1 cs
  proof -
    from p obtain es where es: "trace w' = trace w @ es" "distinct (slots es)"
      "\<forall>c\<in>set (slots es). c < length (conns w') \<and> \<not> connected w' c" by blast
    from begin_op_trace[OF b] obtain es0 where es0: "trace w1 = trace w' @ es0"
      "\<forall>e\<in>set es0. \<not> fires e" by blast
    have "trace w1 = trace w @ (es @ es0)" using es(1) es0(1) by simp
    moreover have "slots (es @ es0) = slots es" using slots_not_fires[OF es0(2)] by simp
    moreover have "c < length (conns w1) \<and> \<not> connected w1 c" if "c \<in> set (slots es)" for c
      using es(3) that begin_op_conns(1,2)[OF b] by (meson less_le_trans)
    moreover have "wf_world w1" using wf_world_begin_op[OF _ b] p by blast
    ultimately show ?thesis using es(2) by metis
  qed
  have T: "?P (log_event e w')" if p: "?P w'" and e: "bracket e" for e w'
  proof -
    from p obtain es where es: "trace w' = trace w @ es" "distinct (slots es)"
      "\<forall>c\<in>set (slots es). c < length (conns w') \<and> \<not> connected w' c" by blast
    have "slots [e] = []" using e by (cases e) simp_all
    then have "slots (es @ [e]) = slots es" by simp
    moreover have "trace (log_event e w') = trace w @ (es @ [e])" using es(1) by simp
    moreover have "\<forall>c\<in>set (slots es). c < length (conns (log_event e w')) \<and>
        \<not> connected (log_event e w') c" using es(3) by simp
    moreover have "wf_world (log_event e w')" using p by simp
    ultimately show ?thesis using es(2) by metis
  qed
  have C: "?P w1" if p: "?P w'" and c: "connected w' c" and cb: "callback c w' = Inr (l, w1)"
    for c w' l w1
  proof -
    from p obtain es where es: "trace w' = trace w @ es" "distinct (slots es)"
      "\<forall>c\<in>set (slots es). c < length (conns w') \<and> \<not> connected w' c" by blast
    have wf': "wf_world w'" using p by blast
    have w1: "w1 = (disconnect c w')\<lparr>trace := trace w' @ [Slot c, Begin (slot_of w' c) False]\<rparr>"
      using callback_wf[OF wf' c] cb by simp
    let ?es = "es @ [Slot c, Begin (slot_of w' c) False]"
    have "c \<notin> set (slots es)" using es(3) c by blast
    then have "distinct (slots ?es)" using es(2) by simp
    moreover have "trace w1 = trace w @ ?es" using es(1) by (simp add: w1)
    moreover have "\<forall>c'\<in>set (slots ?es). c' < length (conns w1) \<and> \<not> connected w1 c'"
      using es(3) connected_less[OF c] by (auto simp: w1)
    moreover have "wf_world w1" using wf' by (simp add: w1 wf_world_disconnect)
    ultimately show ?thesis by blast
  qed
  have p0: "?P w" using assms by simp
  have "?P (final (run R n xs w))"
  proof (rule run_invoke_invariant(1)[where P = ?P])
    show "?P w" by (rule p0)
  qed (rule B T C; assumption)+
  then show "\<exists>es. trace (final (run R n xs w)) = trace w @ es \<and> distinct (slots es)" by blast
  have "?P (final (invoke R n cs w))"
  proof (rule run_invoke_invariant(2)[where P = ?P])
    show "?P w" by (rule p0)
  qed (rule B T C; assumption)+
  then show "\<exists>es. trace (final (invoke R n cs w)) = trace w @ es \<and> distinct (slots es)" by blast
qed

text \<open>A transition that returns.\<close>

lemma transition_serves:
  assumes wf: "wf_world w" and s: "signals_wf w" and f: "features w g = Some f"
      and r: "run R n [Enable g] w = Inr w'"
  shows "\<exists>es. new_events w w' =
             Call (Enable g) # Flagged g # Resolved g True # es @ [Ret (Enable g)] \<and>
           (\<forall>c\<in>set (f_s f). connected w c \<longrightarrow>
              fired c (slot_of w c) es \<or> cancelled g (slot_of w c) es) \<and>
           subseq_of (filter (\<lambda>c. c \<in> set (f_s f)) (slots es)) (f_s f) \<and>
           distinct (slots es) \<and>
           (\<forall>c\<in>set (f_s f). \<not> connected w c \<longrightarrow> Slot c \<notin> set es) \<and>
           (\<forall>c\<in>set (f_s f). \<not> connected w' c)"
proof -
  let ?f' = "f\<lparr>f_enabled := True, f_enable_calls := Suc (f_enable_calls f),
                    f_pr := f_pr f\<lparr>sp_available := True, sp_peers := []\<rparr>\<rparr>"
  let ?w1 = "w\<lparr>features := (features w)(g \<mapsto> ?f'),
                    futures := mark Ready (sp_peers (f_pr f)) (futures w),
                    trace := trace w @ [Call (Enable g), Flagged g, Resolved g True]\<rparr>"
  note p = transition_pass[OF wf f r]
  from p(2) obtain w2 where i: "invoke R n (f_s f) ?w1 = Inr w2"
    and w': "w' = log_event (Ret (Enable g)) w2" by blast
  have b: "begin_op (Enable g) (log_event (Call (Enable g)) w) = Inr (?w1, f_s f)"
    using p(1) by simp
  have s1: "signals_wf ?w1" using begin_op_signals_wf[OF _ _ b] wf s by simp
  have i1: "invoke R n (f_s ?f') ?w1 = Inr w2" using i by simp
  from pass_serves_all[OF p(3) s1 p(8) i1] obtain es where
    tr: "trace w2 = trace ?w1 @ es" and
    a: "\<forall>c\<in>set (f_s ?f'). connected ?w1 c \<longrightarrow>
          fired c (slot_of ?w1 c) es \<or> cancelled g (slot_of ?w1 c) es" and
    o: "subseq_of (filter (\<lambda>c. c \<in> set (f_s ?f')) (slots es)) (f_s ?f')" and
    d: "\<forall>c\<in>set (f_s ?f'). \<not> connected ?w1 c \<longrightarrow> Slot c \<notin> set es" and
    e: "\<forall>c\<in>set (f_s ?f'). \<not> connected w2 c"
    by blast
  from slots_once(2)[OF p(3), of R n "f_s f"] i tr have di: "distinct (slots es)" by simp
  have "trace w' = trace w @ (Call (Enable g) # Flagged g # Resolved g True # es @ [Ret (Enable g)])"
    using tr w' by simp
  then have "new_events w w' = Call (Enable g) # Flagged g # Resolved g True # es @ [Ret (Enable g)]"
    by (rule new_events_append)
  moreover have "\<forall>c\<in>set (f_s f). connected w c \<longrightarrow>
      fired c (slot_of w c) es \<or> cancelled g (slot_of w c) es"
    using a by (simp add: connected_def slot_of_def)
  moreover have "subseq_of (filter (\<lambda>c. c \<in> set (f_s f)) (slots es)) (f_s f)" using o by simp
  moreover have "\<forall>c\<in>set (f_s f). \<not> connected w c \<longrightarrow> Slot c \<notin> set es"
    using d by (simp add: connected_def)
  moreover have "\<forall>c\<in>set (f_s f). \<not> connected w' c" using e w' by simp
  ultimately show ?thesis using di by blast
qed




lemma signals_wf_fresh_world: "signals_wf fresh_world"
  unfolding fresh_world_def by (rule run_signals_wf(1)[OF wf_world_empty signals_wf_empty])

text \<open>
  C5, as stated, fails twice. The constructor takes the initial flag, so a feature
  constructed enabled is enabled though the transition was never invoked. And an
  observer that is connected at the moment of the transition is not notified when a
  reaction that runs first destroys it: below, listeners 0, 1 and 2 are connected, the
  reaction of listener 1 destroys listener 2, and \<^verbatim>\<open>enable()\<close> returns without
  having run the reaction of listener 2.
\<close>

theorem enabled_without_transition_counterexample:
  "map_option f_enabled
     (features (final (run (\<lambda>_. []) 0 [Construct 0 ''CDC'' True] empty_world)) 0) = Some True \<and>
   map_option f_enable_calls
     (features (final (run (\<lambda>_. []) 0 [Construct 0 ''CDC'' True] empty_world)) 0) = Some 0 \<and>
   trace (final (run (\<lambda>_. []) 0 [Construct 0 ''CDC'' True] empty_world)) =
     [Call (Construct 0 ''CDC'' True), Ret (Construct 0 ''CDC'' True)] \<and>
   connected three_waiting 2 \<and> slot_of three_waiting 2 = 2 \<and>
   (\<exists>w'. run (\<lambda>l. if l = 1 then [DestroyListener 2] else []) 1 [Enable 0] three_waiting = Inr w' \<and>
      new_events three_waiting w' =
        [Call (Enable 0), Flagged 0, Resolved 0 True, Slot 0, Begin 0 False, End 0,
         Slot 1, Begin 1 False, Call (DestroyListener 2), Ret (DestroyListener 2), End 1,
         Ret (Enable 0)] \<and>
      2 \<notin> set (begins (new_events three_waiting w')))"
  by (simp add: world_eval empty_world_def construct_def)

text \<open>
  C5, amended. From a well-formed world in which flags, promises and histories agree,
  after every run (complete or not) every feature is enabled exactly when it was
  constructed enabled or \<^verbatim>\<open>enable()\<close> was called on it at least once, and its
  promise is resolved exactly when it is enabled. When a transition returns, every
  body that was connected when it began has had its slot called, entering its
  listener's reaction, unless a call made by a reaction that ran first cancelled its
  registration (destroyed the listener or the feature, or registered the listener
  again); no body of the signal is connected then. When the reactions of the connected
  listeners only look at features the transition returns, after the slot of every
  body that was connected has been called and the reaction has returned.
\<close>

theorem enabled_flag_invariant:
  assumes "wf_world w" and "signals_wf w" and "flag_inv w"
  shows "(\<forall>R n xs g f. features (final (run R n xs w)) g = Some f \<longrightarrow>
            (f_enabled f \<longleftrightarrow> f_ctor_enabled f \<or> 0 < f_enable_calls f) \<and>
            (sp_available (f_pr f) \<longleftrightarrow> f_enabled f)) \<and>
         (\<forall>R n g f w'. features w g = Some f \<longrightarrow> run R n [Enable g] w = Inr w' \<longrightarrow>
            (\<exists>es. new_events w w' =
                 Call (Enable g) # Flagged g # Resolved g True # es @ [Ret (Enable g)] \<and>
               (\<forall>c\<in>set (f_s f). connected w c \<longrightarrow>
                  fired c (slot_of w c) es \<or> cancelled g (slot_of w c) es) \<and>
               (\<forall>c\<in>set (f_s f). \<not> connected w' c))) \<and>
         (\<forall>R n g f. features w g = Some f \<longrightarrow>
            (\<forall>c\<in>set (f_s f). connected w c \<longrightarrow> quiet R w (slot_of w c)) \<longrightarrow>
            (\<exists>w' es. run R (Suc n) [Enable g] w = Inr w' \<and>
               new_events w w' =
                 Call (Enable g) # Flagged g # Resolved g True # es @ [Ret (Enable g)] \<and>
               (\<forall>c\<in>set (f_s f). connected w c \<longrightarrow>
                  Slot c \<in> set es \<and> Begin (slot_of w c) False \<in> set es \<and>
                  End (slot_of w c) \<in> set es) \<and>
               (\<forall>c\<in>set (f_s f). \<not> connected w' c)))"
proof (intro conjI allI impI)
  fix R n xs g f
  assume f: "features (final (run R n xs w)) g = Some f"
  note d = flag_invD[OF run_flag_inv[OF assms(1,3), of R n xs] f]
  show "f_enabled f \<longleftrightarrow> f_ctor_enabled f \<or> 0 < f_enable_calls f" using d by simp
  show "sp_available (f_pr f) \<longleftrightarrow> f_enabled f" using d by simp
next
  fix R n g f w'
  assume f: "features w g = Some f" and r: "run R n [Enable g] w = Inr w'"
  from transition_serves[OF assms(1,2) f r]
  show "\<exists>es. new_events w w' =
                 Call (Enable g) # Flagged g # Resolved g True # es @ [Ret (Enable g)] \<and>
               (\<forall>c\<in>set (f_s f). connected w c \<longrightarrow>
                  fired c (slot_of w c) es \<or> cancelled g (slot_of w c) es) \<and>
               (\<forall>c\<in>set (f_s f). \<not> connected w' c)" by blast
next
  fix R n g f
  assume f: "features w g = Some f"
    and qs: "\<forall>c\<in>set (f_s f). connected w c \<longrightarrow> quiet R w (slot_of w c)"
  let ?f' = "f\<lparr>f_enabled := True, f_enable_calls := Suc (f_enable_calls f),
                    f_pr := f_pr f\<lparr>sp_available := True, sp_peers := []\<rparr>\<rparr>"
  let ?w1 = "w\<lparr>features := (features w)(g \<mapsto> ?f'),
                    futures := mark Ready (sp_peers (f_pr f)) (futures w),
                    trace := trace w @ [Call (Enable g), Flagged g, Resolved g True]\<rparr>"
  let ?es = "concat (map (fire_events R ?w1) (filter (connected w) (f_s f)))"
  from enable_fires(2)[OF assms(1) f qs, of n] obtain w' where
    r: "run R (Suc n) [Enable g] w = Inr w'" and
    co: "\<forall>c. connected w' c = (connected w c \<and> c \<notin> set (f_s f))" and
    tr: "trace w' = trace w @ Call (Enable g) # Flagged g # Resolved g True # ?es @ [Ret (Enable g)]"
    by blast
  have s1: "slot_of ?w1 c = slot_of w c" for c by (simp add: slot_of_def)
  have "Slot c \<in> set ?es \<and> Begin (slot_of w c) False \<in> set ?es \<and> End (slot_of w c) \<in> set ?es"
    if "c \<in> set (f_s f)" "connected w c" for c
  proof -
    have "set (fire_events R ?w1 c) \<subseteq> set ?es" using that by auto
    then show ?thesis using fire_events_mem[where c = c and R = R and w = ?w1] unfolding s1 by blast
  qed
  then show "\<exists>w' es. run R (Suc n) [Enable g] w = Inr w' \<and>
               new_events w w' =
                 Call (Enable g) # Flagged g # Resolved g True # es @ [Ret (Enable g)] \<and>
               (\<forall>c\<in>set (f_s f). connected w c \<longrightarrow>
                  Slot c \<in> set es \<and> Begin (slot_of w c) False \<in> set es \<and>
                  End (slot_of w c) \<in> set es) \<and>
               (\<forall>c\<in>set (f_s f). \<not> connected w' c)"
    using r new_events_append[OF tr] co by blast
qed

theorem enabled_flag_invariant_witness:
  "wf_world three_waiting \<and> signals_wf three_waiting \<and> flag_inv three_waiting \<and>
   map_option f_ctor_enabled (features three_waiting 0) = Some False \<and>
   map_option f_enabled (features three_waiting 0) = Some False \<and>
   map_option f_enable_calls (features three_waiting 0) = Some 0 \<and>
   map_option (\<lambda>f. sp_available (f_pr f)) (features three_waiting 0) = Some False \<and>
   map_option f_enabled (features all_fired 0) = Some True \<and>
   map_option f_enable_calls (features all_fired 0) = Some 1 \<and>
   map_option (\<lambda>f. sp_available (f_pr f)) (features all_fired 0) = Some True \<and>
   (\<exists>w' es. run (\<lambda>l. if l = 1 then [DestroyListener 1] else []) 1 [Enable 0] three_waiting = Inr w' \<and>
      new_events three_waiting w' =
        Call (Enable 0) # Flagged 0 # Resolved 0 True # es @ [Ret (Enable 0)] \<and>
      fired 0 0 es \<and> fired 2 2 es \<and>
      \<not> connected w' 0 \<and> \<not> connected w' 1 \<and> \<not> connected w' 2) \<and>
   (\<exists>w' es. run (\<lambda>_. []) 1 [Enable 0] three_waiting = Inr w' \<and>
      new_events three_waiting w' =
        Call (Enable 0) # Flagged 0 # Resolved 0 True # es @ [Ret (Enable 0)] \<and>
      Slot 0 \<in> set es \<and> Slot 1 \<in> set es \<and> Slot 2 \<in> set es \<and>
      \<not> connected w' 0 \<and> \<not> connected w' 1 \<and> \<not> connected w' 2)"
proof -
  note t = enabled_flag_invariant[OF wf_three_waiting signals_wf_three_waiting flag_inv_three_waiting]
  let ?F = "\<lparr>f_name = ''CDC'', f_enabled = False,
      f_pr = \<lparr>sp_available = False, sp_peers = []\<rparr>, f_s = [0, 1, 2],
      f_ctor_enabled = False, f_enable_calls = 0\<rparr>"
  \<comment> \<open>a transition with a reaction that destroys its own listener\<close>
  let ?R1 = "\<lambda>l::nat. if l = 1 then [DestroyListener 1] else []"
  have "\<exists>w'. run ?R1 1 [Enable 0] three_waiting = Inr w' \<and>
      new_events three_waiting w' =
        [Call (Enable 0), Flagged 0, Resolved 0 True, Slot 0, Begin 0 False, End 0,
         Slot 1, Begin 1 False, Call (DestroyListener 1), Ret (DestroyListener 1), End 1,
         Slot 2, Begin 2 False, End 2, Ret (Enable 0)]"
    by (simp add: world_eval)
  then obtain w' where r: "run ?R1 1 [Enable 0] three_waiting = Inr w'"
    and ne: "new_events three_waiting w' =
        [Call (Enable 0), Flagged 0, Resolved 0 True, Slot 0, Begin 0 False, End 0,
         Slot 1, Begin 1 False, Call (DestroyListener 1), Ret (DestroyListener 1), End 1,
         Slot 2, Begin 2 False, End 2, Ret (Enable 0)]" by blast
  from t[THEN conjunct2, THEN conjunct1, THEN spec[where x = ?R1], THEN spec[where x = 1],
      THEN spec[where x = 0], THEN spec[where x = ?F], THEN spec[where x = w'],
      THEN mp, THEN mp, OF three_waiting_fields(1) r]
  obtain es where e:
    "new_events three_waiting w' = Call (Enable 0) # Flagged 0 # Resolved 0 True # es @ [Ret (Enable 0)]"
    "\<forall>c\<in>set (f_s ?F). connected three_waiting c \<longrightarrow>
        fired c (slot_of three_waiting c) es \<or> cancelled 0 (slot_of three_waiting c) es"
    "\<forall>c\<in>set (f_s ?F). \<not> connected w' c"
    by blast
  have es: "es = [Slot 0, Begin 0 False, End 0,
         Slot 1, Begin 1 False, Call (DestroyListener 1), Ret (DestroyListener 1), End 1,
         Slot 2, Begin 2 False, End 2]" using e(1) ne by simp
  have nc: "\<not> cancelled 0 0 es" "\<not> cancelled 0 2 es" unfolding es by simp_all
  have fi: "fired 0 0 es" "fired 2 2 es"
    using e(2) nc three_waiting_connected by (auto simp: numeral_2_eq_2)
  have a: "\<exists>w' es. run ?R1 1 [Enable 0] three_waiting = Inr w' \<and>
      new_events three_waiting w' =
        Call (Enable 0) # Flagged 0 # Resolved 0 True # es @ [Ret (Enable 0)] \<and>
      fired 0 0 es \<and> fired 2 2 es \<and>
      \<not> connected w' 0 \<and> \<not> connected w' 1 \<and> \<not> connected w' 2"
    using r e(1,3) fi by auto
  \<comment> \<open>a transition with reactions that do nothing\<close>
  have qs: "\<forall>c\<in>set (f_s ?F). connected three_waiting c \<longrightarrow> quiet (\<lambda>_. []) three_waiting (slot_of three_waiting c)"
    by (simp add: quiet_def)
  have "\<exists>w' es. run (\<lambda>_. []) (Suc 0) [Enable 0] three_waiting = Inr w' \<and>
               new_events three_waiting w' =
                 Call (Enable 0) # Flagged 0 # Resolved 0 True # es @ [Ret (Enable 0)] \<and>
               (\<forall>c\<in>set (f_s ?F). connected three_waiting c \<longrightarrow>
                  Slot c \<in> set es \<and> Begin (slot_of three_waiting c) False \<in> set es \<and>
                  End (slot_of three_waiting c) \<in> set es) \<and>
               (\<forall>c\<in>set (f_s ?F). \<not> connected w' c)"
    using t[THEN conjunct2, THEN conjunct2, THEN spec, THEN spec, THEN spec, THEN spec, THEN mp, THEN mp,
        OF three_waiting_fields(1) qs] .
  then obtain w'' es' where "run (\<lambda>_. []) 1 [Enable 0] three_waiting = Inr w''"
    "new_events three_waiting w'' = Call (Enable 0) # Flagged 0 # Resolved 0 True # es' @ [Ret (Enable 0)]"
    "Slot 0 \<in> set es'" "Slot 1 \<in> set es'" "Slot 2 \<in> set es'"
    "\<not> connected w'' 0" "\<not> connected w'' 1" "\<not> connected w'' 2"
    using three_waiting_connected by (auto simp del: run.simps)
  then have b: "\<exists>w' es. run (\<lambda>_. []) 1 [Enable 0] three_waiting = Inr w' \<and>
      new_events three_waiting w' =
        Call (Enable 0) # Flagged 0 # Resolved 0 True # es @ [Ret (Enable 0)] \<and>
      Slot 0 \<in> set es \<and> Slot 1 \<in> set es \<and> Slot 2 \<in> set es \<and>
      \<not> connected w' 0 \<and> \<not> connected w' 1 \<and> \<not> connected w' 2" by blast
  have "map_option f_enabled (features all_fired 0) = Some True"
    "map_option f_enable_calls (features all_fired 0) = Some 1"
    "map_option (\<lambda>f. sp_available (f_pr f)) (features all_fired 0) = Some True"
    by (simp_all add: all_fired_eq)
  then show ?thesis
    using a b wf_three_waiting signals_wf_three_waiting flag_inv_three_waiting
      three_waiting_fields(1)
    by (simp del: run.simps)
qed

text \<open>The invariant rule of the runs that return: the call event and the call itself are
  one step.\<close>

lemma run_invoke_returns:
  assumes B: "\<And>x w w1 cs. P w \<Longrightarrow> begin_op x (log_event (Call x) w) = Inr (w1, cs) \<Longrightarrow> P w1"
      and T: "\<And>x w. P w \<Longrightarrow> P (log_event (Ret x) w)"
      and E: "\<And>l w. P w \<Longrightarrow> P (log_event (End l) w)"
      and C: "\<And>c w l w1. P w \<Longrightarrow> connected w c \<Longrightarrow> callback c w = Inr (l, w1) \<Longrightarrow> P w1"
  shows "run R n xs w = Inr w' \<Longrightarrow> P w \<Longrightarrow> P w'"
    and "invoke R n cs w = Inr w' \<Longrightarrow> P w \<Longrightarrow> P w'"
proof (induction R n xs w and R n cs w arbitrary: w' and w' rule: run_invoke.induct)
  case (1 R n w)
  then show ?case by simp
next
  case (2 R n x xs w)
  let ?w0 = "log_event (Call x) w"
  note r = "2.prems"(1)
  from r obtain p where bp: "begin_op x ?w0 = Inr p" by (cases "begin_op x ?w0") simp_all
  obtain w1 cs where p: "p = (w1, cs)" by (cases p)
  have b: "begin_op x ?w0 = Inr (w1, cs)" using bp p by simp
  from r b obtain w2 where i: "invoke R n cs w1 = Inr w2"
    by (cases "invoke R n cs w1") simp_all
  have r2: "run R n xs (log_event (Ret x) w2) = Inr w'" using r b i by simp
  have P1: "P w1" by (rule B[OF "2.prems"(2) b])
  have P2: "P w2" by (rule "2.IH"(1)[OF b refl i P1])
  show ?case by (rule "2.IH"(2)[OF b refl i r2 T[OF P2]])
next
  case (3 R n w)
  then show ?case by simp
next
  case (4 R n c cs w)
  note i = "4.prems"(1)
  show ?case
  proof (cases "connected w c")
    case False
    have i': "invoke R n cs w = Inr w'" using i False by simp
    show ?thesis by (rule "4.IH"(1)[OF False i' "4.prems"(2)])
  next
    case True
    obtain m where n: "n = Suc m" using i True by (cases n) simp_all
    from i True n obtain p where cp: "callback c w = Inr p" by (cases "callback c w") simp_all
    obtain l w1 where p: "p = (l, w1)" by (cases p)
    have cb: "callback c w = Inr (l, w1)" using cp p by simp
    from i True n cb obtain w2 where r: "run R m (R l) w1 = Inr w2"
      by (cases "run R m (R l) w1") simp_all
    have i3: "invoke R n cs (log_event (End l) w2) = Inr w'" using i True n cb r by simp
    have P1: "P w1" by (rule C[OF "4.prems"(2) True cb])
    have P2: "P w2" using "4.IH"(2)[OF _ n cb refl r P1] True by simp
    show ?thesis using "4.IH"(3)[OF _ n cb refl r i3 E[OF P2]] True by simp
  qed
qed

lemma begin_op_calls:
  assumes "begin_op x w = Inr (w1, cs)"
  shows "\<exists>es. trace w1 = trace w @ es \<and> (\<forall>e\<in>set es. \<not> fires e \<and> (\<forall>y. e \<noteq> Call y))"
  using assms
  by (cases x)
     (auto simp: construct_def enable_eq is_enabled_def when_enabled_future_def when_enabled_Inr
        new_listener_def destroy_listener_def destroy_feature_def set_value_def get_shared_future_def
        Let_def split: option.splits if_splits prod.splits)

lemma registrations_none: "\<forall>e\<in>set es. \<forall>y. e \<noteq> Call y \<Longrightarrow> registrations l es = 0"
proof (induction es)
  case Nil
  then show ?case by simp
next
  case (Cons e es)
  then have "\<not> registers l e" by (cases e) auto
  then show ?case using Cons by simp
qed

lemma begin_op_feature_cases:
  assumes "begin_op x w = Inr (w1, cs)" and "features w1 g = Some f1"
  shows "f_s f1 = [] \<or>
         (\<exists>f. features w g = Some f \<and>
            (f_s f1 = f_s f \<and> f_enabled f1 = f_enabled f \<or>
             x = Enable g \<and> cs = f_s f \<and> f_s f1 = f_s f \<or>
             (\<exists>l. x = WhenEnabled g l) \<and> f_s f1 = f_s f @ [length (conns w)] \<and>
               f_enabled f1 = f_enabled f \<and> (f_enabled f \<longrightarrow> cs = f_s f1)))"
  using assms
  by (cases x)
     (auto simp: construct_def enable_eq is_enabled_def when_enabled_future_def when_enabled_Inr
        new_listener_def destroy_listener_def destroy_feature_def get_shared_future_def
        Let_def split: option.splits if_splits prod.splits)

lemma settled_begin_op:
  assumes wf: "wf_world w" and s: "settled S w" and b: "begin_op x w = Inr (w1, cs)"
  shows "settled (S \<union> set cs) w1"
  unfolding settled_def
proof (intro allI impI)
  fix g f1 c
  assume f1: "features w1 g = Some f1" and en: "f_enabled f1" and c: "c \<in> set (f_s f1)"
    and co: "connected w1 c"
  from begin_op_feature_cases[OF b f1] c obtain f where f: "features w g = Some f" and
    cases: "f_s f1 = f_s f \<and> f_enabled f1 = f_enabled f \<or>
             x = Enable g \<and> cs = f_s f \<and> f_s f1 = f_s f \<or>
             (\<exists>l. x = WhenEnabled g l) \<and> f_s f1 = f_s f @ [length (conns w)] \<and>
               f_enabled f1 = f_enabled f \<and> (f_enabled f \<longrightarrow> cs = f_s f1)"
    by auto
  from cases consider
      (same) "f_s f1 = f_s f" "f_enabled f1 = f_enabled f"
    | (enable) "cs = f_s f" "f_s f1 = f_s f"
    | (register) "cs = f_s f1"
    using en by auto
  then show "c \<in> S \<union> set cs"
  proof cases
    case same
    have "c < length (conns w)" using wf_world_f_s[OF wf f] c same(1) by auto
    then have "connected w c" using begin_op_conns(2)[OF b _ co] by simp
    then have "c \<in> S" using s f en c same unfolding settled_def by auto
    then show ?thesis by simp
  next
    case enable
    then show ?thesis using c by simp
  next
    case register
    then show ?thesis using c by simp
  qed
qed

lemma settled_log_event [simp]: "settled S (log_event e w) = settled S w"
  by (simp add: settled_def)

lemma settled_skip: "settled (S \<union> set (c # cs)) w \<Longrightarrow> \<not> connected w c \<Longrightarrow> settled (S \<union> set cs) w"
  unfolding settled_def by auto

lemma settled_call:
  "settled (S \<union> set (c # cs)) w \<Longrightarrow>
   settled (S \<union> set cs) ((disconnect c w)\<lparr>trace := tr\<rparr>)"
  unfolding settled_def by auto

text \<open>When a run returns, the bodies of enabled features that it found disconnected or
  connected itself are disconnected.\<close>

lemma passes_settle:
  shows "wf_world w \<Longrightarrow> settled S w \<Longrightarrow> run R n xs w = Inr w' \<Longrightarrow> settled S w'"
    and "wf_world w \<Longrightarrow> settled (S \<union> set cs) w \<Longrightarrow> invoke R n cs w = Inr w' \<Longrightarrow> settled S w'"
proof (induction R n xs w and R n cs w arbitrary: S w' and S w' rule: run_invoke.induct)
  case (1 R n w)
  then show ?case by simp
next
  case (2 R n x xs w)
  let ?w0 = "log_event (Call x) w"
  note wf = "2.prems"(1) and s = "2.prems"(2) and r = "2.prems"(3)
  from r obtain p where bp: "begin_op x ?w0 = Inr p" by (cases "begin_op x ?w0") simp_all
  obtain w1 cs where p: "p = (w1, cs)" by (cases p)
  have b: "begin_op x ?w0 = Inr (w1, cs)" using bp p by simp
  from r b obtain w2 where i: "invoke R n cs w1 = Inr w2"
    by (cases "invoke R n cs w1") simp_all
  have r2: "run R n xs (log_event (Ret x) w2) = Inr w'" using r b i by simp
  have wf1: "wf_world w1" using wf_world_begin_op[OF _ b] wf by simp
  have s1: "settled (S \<union> set cs) w1" using settled_begin_op[OF _ _ b] wf s by simp
  have s2: "settled S w2" by (rule "2.IH"(1)[OF b refl wf1 s1 i])
  have wf2: "wf_world w2" using invoke_wf[OF wf1, of R n cs] i by simp
  show ?case using "2.IH"(2)[OF b refl i _ _ r2] wf2 s2 by simp
next
  case (3 R n w)
  then show ?case by simp
next
  case (4 R n c cs w)
  note wf = "4.prems"(1) and s = "4.prems"(2) and i = "4.prems"(3)
  show ?case
  proof (cases "connected w c")
    case False
    have i': "invoke R n cs w = Inr w'" using i False by simp
    show ?thesis by (rule "4.IH"(1)[OF False wf settled_skip[OF s False] i'])
  next
    case True
    obtain m where n: "n = Suc m" using i True by (cases n) simp_all
    let ?l = "slot_of w c"
    let ?w1 = "(disconnect c w)\<lparr>trace := trace w @ [Slot c, Begin ?l False]\<rparr>"
    have cb: "callback c w = Inr (?l, ?w1)" by (rule callback_wf[OF wf True])
    from i True n cb obtain w2 where r: "run R m (R ?l) ?w1 = Inr w2"
      by (cases "run R m (R ?l) ?w1") simp_all
    have i3: "invoke R n cs (log_event (End ?l) w2) = Inr w'" using i True n cb r by simp
    have wf1: "wf_world ?w1" using wf by (simp add: wf_world_disconnect)
    have s1: "settled (S \<union> set cs) ?w1" by (rule settled_call[OF s])
    have s2: "settled (S \<union> set cs) w2" using "4.IH"(2)[OF _ n cb refl wf1 s1 r] True by simp
    have wf2: "wf_world w2" using run_wf[OF wf1, of R m "R ?l"] r by simp
    show ?thesis using "4.IH"(3)[OF _ n cb refl r _ _ i3] True wf2 s2 by simp
  qed
qed

lemma undisturbed_append: "undisturbed g l (es @ es') \<Longrightarrow> undisturbed g l es"
  unfolding undisturbed_def by auto

lemma undisturbed_quiet:
  assumes "\<forall>e\<in>set es'. \<forall>y. e \<noteq> Call y"
  shows "undisturbed g l (es @ es') = undisturbed g l es"
  using assms registrations_none[OF assms, of l] unfolding undisturbed_def by auto

text \<open>A listener that is registered once, on one feature, and is not destroyed (nor the
  feature), has had its reaction entered or waits in the signal of the feature.\<close>

lemma registered_once:
  assumes wf: "wf_world w" and sw: "signals_wf w" and nl: "\<not> has_live w l"
      and r: "run R n xs w = Inr w'"
  shows "\<exists>es. trace w' = trace w @ es \<and> (undisturbed g l es \<longrightarrow> served g l es w')"
proof -
  let ?P = "\<lambda>w'. wf_world w' \<and> signals_wf w' \<and>
      (\<exists>es. trace w' = trace w @ es \<and> (undisturbed g l es \<longrightarrow> served g l es w'))"
  have B: "?P w1" if p: "?P v" and b: "begin_op x (log_event (Call x) v) = Inr (w1, cs)"
    for x v w1 cs
  proof -
    let ?v0 = "log_event (Call x) v"
    have wfv: "wf_world ?v0" and sv: "signals_wf ?v0" using p by simp_all
    from p obtain es where es: "trace v = trace w @ es"
      "undisturbed g l es \<longrightarrow> served g l es v" by blast
    from begin_op_calls[OF b] obtain es0 where es0: "trace w1 = trace ?v0 @ es0"
      "\<forall>e\<in>set es0. \<not> fires e \<and> (\<forall>y. e \<noteq> Call y)" by blast
    let ?es1 = "es @ Call x # es0"
    have tr1: "trace w1 = trace w @ ?es1" using es(1) es0(1) by simp
    have r0: "registrations l es0 = 0" using registrations_none es0(2) by blast
    have b0: "begins es0 = []" using begins_not_fires es0(2) by blast
    have bg: "begins ?es1 = begins es" using b0 by simp
    have "served g l ?es1 w1" if u: "undisturbed g l ?es1"
    proof -
      have ue: "undisturbed g l es" by (rule undisturbed_append[OF u])
      then have sv': "served g l es v" using es(2) by simp
      have nd: "x \<noteq> DestroyListener l" "x \<noteq> DestroyFeature g"
        using u unfolding undisturbed_def by auto
      show ?thesis
      proof (cases "\<exists>g'. x = WhenEnabled g' l")
        case True
        then obtain g' where x: "x = WhenEnabled g' l" by blast
        have g': "g' = g" using u x unfolding undisturbed_def by auto
        have reg: "registrations l ?es1 = Suc (registrations l es)" using x r0 by simp
        then have z: "registrations l es = 0" using u unfolding undisturbed_def by simp
        then have nb: "l \<notin> set (begins es)" using sv' unfolding served_def by simp
        from b x g' obtain f L where f: "features v g = Some f" and L: "listeners v l = Some L"
          and w1: "w1 = set_connection l L (length (conns v)) (snd (connect g f l ?v0))"
          by (auto simp: when_enabled_Inr)
        let ?c = "length (conns v)"
        have "l_conn L \<noteq> Some ?c" using wf_world_l_conn[OF _ L] p by auto
        then have "connected w1 ?c" by (simp add: w1)
        moreover have "slot_of w1 ?c = l" by (simp add: w1 slot_of_connect(2))
        moreover have "features w1 g = Some (f\<lparr>f_s := f_s f @ [?c]\<rparr>)" using f by (simp add: w1)
        ultimately have "\<exists>c f. connected w1 c \<and> slot_of w1 c = l \<and> features w1 g = Some f \<and>
            c \<in> set (f_s f)" by (intro exI[of _ ?c] exI[of _ "f\<lparr>f_s := f_s f @ [?c]\<rparr>"]) simp
        then show ?thesis using reg z nb bg unfolding served_def by simp
      next
        case False
        then have reg: "registrations l ?es1 = registrations l es" using r0 by (cases x) auto
        have nc: "\<not> cancels g l x" using False nd by (cases x) auto
        have hl: "has_live w1 l \<Longrightarrow> has_live v l"
          using begin_op_has_live[OF b] False by auto
        have keep: "\<exists>c f. connected w1 c \<and> slot_of w1 c = l \<and> features w1 g = Some f \<and>
            c \<in> set (f_s f)"
          if c: "connected v c" "slot_of v c = l" "features v g = Some f" "c \<in> set (f_s f)" for c f
        proof -
          have bl: "belongs ?v0 c g" using signals_wfD(2)[OF sv, of g f c] c(3,4) by simp
          have c1: "connected w1 c" using begin_op_keeps[OF wfv b _ _ bl nc] c(1,2) by simp
          have "slot_of w1 c = l" using begin_op_conns(3)[OF b, of c] connected_less[OF c(1)] c(2) by simp
          moreover from begin_op_stays[OF b _ _ c1, of g f] c(3,4)
          obtain f1 where "features w1 g = Some f1" "c \<in> set (f_s f1)" by auto
          ultimately show ?thesis using c1 by blast
        qed
        show ?thesis unfolding served_def reg bg
        proof (rule conjI; rule impI)
          assume "registrations l es = 0"
          then show "\<not> has_live w1 l \<and> l \<notin> set (begins es)"
            using sv' hl unfolding served_def by blast
        next
          assume "registrations l es = 1"
          with sv' consider
              (a) "l \<in> set (begins es)" "\<not> has_live v l"
            | (b) "l \<notin> set (begins es)"
                "\<exists>c f. connected v c \<and> slot_of v c = l \<and> features v g = Some f \<and> c \<in> set (f_s f)"
            unfolding served_def by blast
          then show "l \<in> set (begins es) \<and> \<not> has_live w1 l \<or>
              l \<notin> set (begins es) \<and>
              (\<exists>c f. connected w1 c \<and> slot_of w1 c = l \<and> features w1 g = Some f \<and> c \<in> set (f_s f))"
          proof cases
            case a
            then show ?thesis using hl by blast
          next
            case b
            then show ?thesis using keep by blast
          qed
        qed
      qed
    qed
    moreover have "wf_world w1" by (rule wf_world_begin_op[OF wfv b])
    moreover have "signals_wf w1" by (rule begin_op_signals_wf[OF wfv sv b])
    ultimately show ?thesis using tr1 by blast
  qed
  have T: "?P (log_event e v)" if p: "?P v" and e: "\<forall>y. e \<noteq> Call y" "\<not> fires e" for e v
  proof -
    from p obtain es where es: "trace v = trace w @ es"
      "undisturbed g l es \<longrightarrow> served g l es v" by blast
    have q: "\<forall>e'\<in>set [e]. \<forall>y. e' \<noteq> Call y" using e(1) by simp
    have "begins [e] = []" using e(2) by (cases e) simp_all
    then have "served g l (es @ [e]) (log_event e v) = served g l es v"
      using registrations_none[OF q, of l] by (simp add: served_def)
    then have "undisturbed g l (es @ [e]) \<longrightarrow> served g l (es @ [e]) (log_event e v)"
      using es(2) undisturbed_quiet[OF q, of g l es] by simp
    moreover have "trace (log_event e v) = trace w @ (es @ [e])" using es(1) by simp
    ultimately show ?thesis using p by (metis wf_world_log_event signals_wf_log_event)
  qed
  have C: "?P w1" if p: "?P v" and c: "connected v c" and cb: "callback c v = Inr (l', w1)"
    for c v l' w1
  proof -
    from p obtain es where es: "trace v = trace w @ es"
      "undisturbed g l es \<longrightarrow> served g l es v" by blast
    have wfv: "wf_world v" using p by simp
    let ?new = "[Slot c, Begin (slot_of v c) False]"
    have w1: "w1 = (disconnect c v)\<lparr>trace := trace v @ ?new\<rparr>"
      using callback_wf[OF wfv c] cb by simp
    have q: "\<forall>e'\<in>set ?new. \<forall>y. e' \<noteq> Call y" by simp
    have reg: "registrations l (es @ ?new) = registrations l es" by simp
    have bg: "begins (es @ ?new) = begins es @ [slot_of v c]" by simp
    have "served g l (es @ ?new) w1" if u: "undisturbed g l (es @ ?new)"
    proof -
      have "undisturbed g l es" by (rule undisturbed_append[OF u])
      then have sv: "served g l es v" using es(2) by simp
      show ?thesis
      proof (cases "slot_of v c = l")
        case True
        then have hl: "has_live v l" using c by (auto simp: has_live_iff)
        have "\<not> has_live w1 l"
          using wf_world_unique[OF wfv c] True by (auto simp: has_live_iff w1)
        moreover have "registrations l es = 1"
          using sv hl u unfolding served_def undisturbed_def by (simp add: le_Suc_eq)
        ultimately show ?thesis using True unfolding served_def reg bg by simp
      next
        case False
        have hl: "has_live w1 l \<Longrightarrow> has_live v l" by (auto simp: has_live_iff w1)
        have keep: "connected w1 c' \<and> slot_of w1 c' = l \<and> features w1 g = Some f \<and> c' \<in> set (f_s f)"
          if "connected v c'" "slot_of v c' = l" "features v g = Some f" "c' \<in> set (f_s f)" for c' f
          using that False by (auto simp: w1)
        have mb: "l \<in> set (begins (es @ ?new)) \<longleftrightarrow> l \<in> set (begins es)"
          using False by auto
        show ?thesis unfolding served_def reg mb
        proof (rule conjI; rule impI)
          assume "registrations l es = 0"
          then show "\<not> has_live w1 l \<and> l \<notin> set (begins es)"
            using sv hl unfolding served_def by blast
        next
          assume "registrations l es = 1"
          with sv consider
              (a) "l \<in> set (begins es)" "\<not> has_live v l"
            | (b) "l \<notin> set (begins es)"
                "\<exists>c f. connected v c \<and> slot_of v c = l \<and> features v g = Some f \<and> c \<in> set (f_s f)"
            unfolding served_def by blast
          then show "l \<in> set (begins es) \<and> \<not> has_live w1 l \<or>
              l \<notin> set (begins es) \<and>
              (\<exists>c f. connected w1 c \<and> slot_of w1 c = l \<and> features w1 g = Some f \<and> c \<in> set (f_s f))"
          proof cases
            case a
            then show ?thesis using hl by blast
          next
            case b
            then show ?thesis using keep by blast
          qed
        qed
      qed
    qed
    moreover have "trace w1 = trace w @ (es @ ?new)" using es(1) by (simp add: w1)
    moreover have "wf_world w1" using wfv by (simp add: w1 wf_world_disconnect)
    moreover have "signals_wf w1" using p signals_wf_features[of w1 v] by (simp add: w1)
    ultimately show ?thesis by blast
  qed
  have p0: "?P w" using wf sw nl by (simp add: served_def)
  have "?P w'"
  proof (rule run_invoke_returns(1)[where P = ?P, OF _ _ _ _ r p0])
    show "\<And>x w w1 cs. ?P w \<Longrightarrow> begin_op x (log_event (Call x) w) = Inr (w1, cs) \<Longrightarrow> ?P w1"
      by (rule B)
    show "\<And>x w. ?P w \<Longrightarrow> ?P (log_event (Ret x) w)" by (rule T) simp_all
    show "\<And>l w. ?P w \<Longrightarrow> ?P (log_event (End l) w)" by (rule T) simp_all
    show "\<And>c w l w1. ?P w \<Longrightarrow> connected w c \<Longrightarrow> callback c w = Inr (l, w1) \<Longrightarrow> ?P w1"
      by (rule C)
  qed
  then show ?thesis by blast
qed

text \<open>On a feature that is not enabled and has no connected body, \<open>ls1\<close> are
  registered, the transition is made, \<open>ls2\<close> are registered, the feature is destroyed
  and then the listeners are: every call returns and, over the whole run, the reactions
  entered are exactly \<open>ls1\<close> followed by \<open>ls2\<close>, each listener once. The listeners
  are distinct, exist and have reactions that only look at features.\<close>

lemma exactly_once_schedule:
  assumes wf: "wf_world w" and f: "features w g = Some f" and ne: "\<not> f_enabled f"
      and nc: "\<forall>c\<in>set (f_s f). \<not> connected w c"
      and d: "distinct (ls1 @ ls2)"
      and ex: "\<forall>l\<in>set (ls1 @ ls2). listeners w l \<noteq> None \<and> quiet R w l"
  shows "\<exists>w'. run R (Suc n)
                (map (WhenEnabled g) ls1 @ [Enable g] @ map (WhenEnabled g) ls2 @
                 [DestroyFeature g] @ map DestroyListener (ls1 @ ls2)) w = Inr w' \<and>
           begins (new_events w w') = ls1 @ ls2 \<and>
           (\<forall>l\<in>set (ls1 @ ls2). count_list (begins (new_events w w')) l = 1)"
proof -
  \<comment> \<open>the registrations before the transition\<close>
  have d1: "distinct ls1" and d2: "distinct ls2" using d by auto
  have "\<forall>l\<in>set ls1. listeners w l \<noteq> None" using ex by auto
  moreover have "\<forall>c\<in>set (f_s f). connected w c \<longrightarrow> slot_of w c \<notin> set ls1" using nc by auto
  ultimately obtain wA fA esA where
    rA: "run R (Suc n) (map (WhenEnabled g) ls1) w = Inr wA" and
    wfA: "wf_world wA" and vA: "view wA = view w" and fA: "features wA g = Some fA" and
    mA: "map (slot_of wA) (filter (connected wA) (f_s fA)) =
           map (slot_of w) (filter (connected w) (f_s f)) @ ls1" and
    lA: "\<forall>l. (listeners wA l = None) = (listeners w l = None)" and
    tA: "trace wA = trace w @ esA" "begins esA = []"
    using register_waiting[OF wf f ne d1, of R "Suc n"] by blast
  have "filter (connected w) (f_s f) = []" using nc by (simp add: filter_empty_conv)
  then have mA': "map (slot_of wA) (filter (connected wA) (f_s fA)) = ls1" using mA by simp
  \<comment> \<open>the transition\<close>
  have qA: "\<forall>c\<in>set (f_s fA). connected wA c \<longrightarrow> quiet R wA (slot_of wA c)"
  proof (intro ballI impI)
    fix c assume "c \<in> set (f_s fA)" "connected wA c"
    then have "slot_of wA c \<in> set (map (slot_of wA) (filter (connected wA) (f_s fA)))" by simp
    then have "slot_of wA c \<in> set ls1" unfolding mA' .
    then show "quiet R wA (slot_of wA c)" using ex by (simp add: quiet_view[OF vA])
  qed
  let ?fB = "fA\<lparr>f_enabled := True, f_enable_calls := Suc (f_enable_calls fA),
                    f_pr := f_pr fA\<lparr>sp_available := True, sp_peers := []\<rparr>\<rparr>"
  let ?w1 = "wA\<lparr>features := (features wA)(g \<mapsto> ?fB),
                    futures := mark Ready (sp_peers (f_pr fA)) (futures wA),
                    trace := trace wA @ [Call (Enable g), Flagged g, Resolved g True]\<rparr>"
  from enable_fires(2)[OF wfA fA qA, of n] obtain wB where
    rB: "run R (Suc n) [Enable g] wA = Inr wB" and wfB: "wf_world wB" and
    fB: "features wB = (features wA)(g \<mapsto> ?fB)" and lB: "listeners wB = listeners wA" and
    cB: "\<forall>c. connected wB c = (connected wA c \<and> c \<notin> set (f_s fA))" and
    tB: "trace wB = trace wA @ Call (Enable g) # Flagged g # Resolved g True #
             concat (map (fire_events R ?w1) (filter (connected wA) (f_s fA))) @ [Ret (Enable g)]"
    by blast
  let ?esB = "Call (Enable g) # Flagged g # Resolved g True #
             concat (map (fire_events R ?w1) (filter (connected wA) (f_s fA))) @ [Ret (Enable g)]"
  have s1: "slot_of ?w1 c = slot_of wA c" for c by simp
  have bB: "begins ?esB = ls1" using mA' by (simp add: s1[abs_def])
  \<comment> \<open>the registrations after the transition\<close>
  have gB: "features wB g = Some ?fB" by (simp add: fB)
  have qB: "quiet R wB l = quiet R wA l" for l
    using fA by (intro quiet_dom) (simp add: fB)
  have exB: "\<forall>l\<in>set ls2. listeners wB l \<noteq> None \<and> quiet R wB l"
    using ex lA by (simp add: lB qB quiet_view[OF vA])
  have ncB: "\<forall>c\<in>set (f_s ?fB). \<not> connected wB c" using cB by simp
  have "f_enabled ?fB" by simp
  from register_fired[OF wfB gB this d2 exB ncB, of n] obtain wC fC esC where
    rC: "run R (Suc n) (map (WhenEnabled g) ls2) wB = Inr wC" and
    fC: "features wC g = Some fC" and
    lC: "\<forall>l. (listeners wC l = None) = (listeners wB l = None)" and
    tC: "trace wC = trace wB @ esC" "begins esC = ls2"
    by blast
  \<comment> \<open>the feature is destroyed, the listeners outlive it\<close>
  let ?y = "DestroyFeature g"
  let ?wD1 = "(fold disconnect (f_s fC) (log_event (Call ?y) wC))\<lparr>features := (features wC)(g := None),
               futures := mark Broken (sp_peers (f_pr fC)) (futures wC)\<rparr>"
  let ?wD = "log_event (Ret ?y) ?wD1"
  have "begin_op ?y (log_event (Call ?y) wC) = Inr (?wD1, [])"
    using fC by (simp add: destroy_feature_def)
  then have rD: "run R (Suc n) [?y] wC = Inr ?wD" by simp
  have tD: "trace ?wD = trace wC @ [Call ?y, Ret ?y]" by simp
  have "\<forall>l\<in>set (ls1 @ ls2). listeners ?wD l \<noteq> None"
    using ex lA lC by (simp add: lB)
  from destroy_listeners_silent[OF d this, of R "Suc n"] obtain w' esE where
    rE: "run R (Suc n) (map DestroyListener (ls1 @ ls2)) ?wD = Inr w'" and
    tE: "trace w' = trace ?wD @ esE" "begins esE = []"
    by blast
  have "run R (Suc n)
                (map (WhenEnabled g) ls1 @ [Enable g] @ map (WhenEnabled g) ls2 @
                 [DestroyFeature g] @ map DestroyListener (ls1 @ ls2)) w = Inr w'"
    by (simp only: run_append rA rB rC rD rE sum.case)
  moreover have "trace w' = trace w @ (esA @ ?esB @ esC @ [Call ?y, Ret ?y] @ esE)"
    using tA(1) tB tC(1) tD tE(1) by simp
  then have "new_events w w' = esA @ ?esB @ esC @ [Call ?y, Ret ?y] @ esE"
    by (rule new_events_append)
  then have "begins (new_events w w') = ls1 @ ls2"
    using tA(2) bB tC(2) tE(2) by (simp only: begins_append begins.simps append_Nil append_Nil2)
  ultimately show "\<exists>w'. run R (Suc n)
                (map (WhenEnabled g) ls1 @ [Enable g] @ map (WhenEnabled g) ls2 @
                 [DestroyFeature g] @ map DestroyListener (ls1 @ ls2)) w = Inr w' \<and>
           begins (new_events w w') = ls1 @ ls2 \<and>
           (\<forall>l\<in>set (ls1 @ ls2). count_list (begins (new_events w w')) l = 1)"
    using count_list_distinct[OF d] by auto
qed


lemma fresh_world_eq:
  "fresh_world =
     \<lparr>features = (\<lambda>_. None)(0 \<mapsto> \<lparr>f_name = ''CDC'', f_enabled = False,
          f_pr = \<lparr>sp_available = False, sp_peers = []\<rparr>, f_s = [],
          f_ctor_enabled = False, f_enable_calls = 0\<rparr>),
      listeners = (\<lambda>_. None)(0 \<mapsto> \<lparr>l_conn = None\<rparr>, 1 \<mapsto> \<lparr>l_conn = None\<rparr>,
                    2 \<mapsto> \<lparr>l_conn = None\<rparr>),
      conns = [], futures = [],
      trace = [Call (Construct 0 ''CDC'' False), Ret (Construct 0 ''CDC'' False),
               Call (NewListener 0), Ret (NewListener 0), Call (NewListener 1), Ret (NewListener 1),
               Call (NewListener 2), Ret (NewListener 2)]\<rparr>"
  by (simp add: fresh_world_def empty_world_def construct_def new_listener_def log_event_def
      Let_def numeral_2_eq_2)

lemma settled_fresh_world: "settled {} fresh_world"
  by (simp add: settled_def fresh_world_eq)

text \<open>A listener that is registered once, on \<open>g\<close>, and is not destroyed, nor \<open>g\<close>.\<close>

lemma undisturbedI:
  assumes r: "registrations l es = 1" and c: "Call (WhenEnabled g l) \<in> set es"
      and dl: "Call (DestroyListener l) \<notin> set es" and dg: "Call (DestroyFeature g) \<notin> set es"
  shows "undisturbed g l es"
proof -
  have "g' = g" if "Call (WhenEnabled g' l) \<in> set es" for g'
  proof (rule ccontr)
    assume ne: "g' \<noteq> g"
    let ?A = "{Call (WhenEnabled g l), Call (WhenEnabled g' l)}"
    have "?A \<subseteq> set (filter (registers l) es)" using c that by simp
    then have "card ?A \<le> card (set (filter (registers l) es))" by (intro card_mono) simp_all
    also have "\<dots> \<le> length (filter (registers l) es)" by (rule card_length)
    finally show False using ne r by (simp add: registrations_def)
  qed
  then show ?thesis using r dl dg unfolding undisturbed_def by auto
qed

text \<open>
  C1, as stated, fails: a reaction is entered once for every registration of its
  observer, not once for the observer. Below, observers 0, 1 and 2 are registered
  before the transition (N = 3) and observer 0 is registered again after it: its
  reaction is entered a second time.
\<close>

theorem reregistered_observer_fires_again_counterexample:
  "\<exists>w'. run (\<lambda>_. []) 1 [Enable 0, WhenEnabled 0 0] three_waiting = Inr w' \<and>
     new_events three_waiting w' =
       [Call (Enable 0), Flagged 0, Resolved 0 True,
        Slot 0, Begin 0 False, End 0, Slot 1, Begin 1 False, End 1, Slot 2, Begin 2 False, End 2,
        Ret (Enable 0),
        Call (WhenEnabled 0 0), Slot 3, Begin 0 False, End 0, Ret (WhenEnabled 0 0)] \<and>
     begins (new_events three_waiting w') = [0, 1, 2, 0] \<and>
     count_list (begins (new_events three_waiting w')) 0 = 2"
  by (simp add: world_eval)

text \<open>
  C1, amended. Delivery is exactly once per registration. From a world between two
  top-level calls (no connected body in the signal of an enabled feature):

  \<^item> over any run that returns, whatever the reactions do, an observer that was not
    connected at the start, is registered exactly once, on the gate \<open>g\<close>, and is not
    destroyed, nor the gate, has either had its reaction entered exactly once and is
    disconnected, or its reaction was not entered and it waits, connected, on a gate
    that is not enabled;
  \<^item> over any run, failing or not, the number of times the reaction of an observer
    is entered, plus one when it is still connected at the end, is at most the number of
    its registrations, plus one when it was connected at the start: no registration is
    served twice, also when the observer outlives the gate;
  \<^item> for distinct observers \<open>ls1\<close> registered before the transition and \<open>ls2\<close> after
    it, on a gate that is not enabled and has no connected observer, with reactions that
    only read feature flags, every call returns and the reactions entered over the life
    of the gate, which is destroyed before the observers are, are \<open>ls1\<close> followed by
    \<open>ls2\<close>, each once.
\<close>

theorem exactly_once_delivery:
  assumes wf: "wf_world w" and sw: "signals_wf w" and st: "settled {} w"
  shows "(\<forall>w'. run R n xs w = Inr w' \<longrightarrow> \<not> has_live w l \<longrightarrow>
            registrations l (new_events w w') = 1 \<longrightarrow>
            Call (WhenEnabled g l) \<in> set (new_events w w') \<longrightarrow>
            Call (DestroyListener l) \<notin> set (new_events w w') \<longrightarrow>
            Call (DestroyFeature g) \<notin> set (new_events w w') \<longrightarrow>
            count_list (begins (new_events w w')) l = 1 \<and> \<not> has_live w' l \<or>
            count_list (begins (new_events w w')) l = 0 \<and> has_live w' l \<and>
              (\<exists>f'. features w' g = Some f' \<and> \<not> f_enabled f')) \<and>
         count_list (begins (new_events w (final (run R n xs w)))) l +
             (if has_live (final (run R n xs w)) l then 1 else 0)
           \<le> registrations l (new_events w (final (run R n xs w))) +
             (if has_live w l then 1 else 0) \<and>
         (features w g = Some f \<and> \<not> f_enabled f \<and> (\<forall>c\<in>set (f_s f). \<not> connected w c) \<and>
          distinct (ls1 @ ls2) \<and>
          (\<forall>k\<in>set (ls1 @ ls2). listeners w k \<noteq> None \<and> quiet R w k) \<longrightarrow>
          (\<exists>w'. run R (Suc m)
                (map (WhenEnabled g) ls1 @ [Enable g] @ map (WhenEnabled g) ls2 @
                 [DestroyFeature g] @ map DestroyListener (ls1 @ ls2)) w = Inr w' \<and>
             begins (new_events w w') = ls1 @ ls2 \<and>
             (\<forall>k\<in>set (ls1 @ ls2). count_list (begins (new_events w w')) k = 1)))"
proof (intro conjI allI impI)
  fix w'
  assume r: "run R n xs w = Inr w'" and nl: "\<not> has_live w l"
     and reg: "registrations l (new_events w w') = 1"
     and c: "Call (WhenEnabled g l) \<in> set (new_events w w')"
     and dl: "Call (DestroyListener l) \<notin> set (new_events w w')"
     and dg: "Call (DestroyFeature g) \<notin> set (new_events w w')"
  let ?es = "new_events w w'"
  from registered_once[OF wf sw nl r, of g] obtain es where
    es: "trace w' = trace w @ es" "undisturbed g l es \<longrightarrow> served g l es w'" by blast
  have ne: "?es = es" using es(1) by (rule new_events_append)
  have "undisturbed g l ?es" using reg c dl dg by (rule undisturbedI)
  then have "served g l ?es w'" using es(2) ne by simp
  then consider
      (entered) "l \<in> set (begins ?es)" "\<not> has_live w' l"
    | (waits) c' f' where "l \<notin> set (begins ?es)" "connected w' c'" "slot_of w' c' = l"
        "features w' g = Some f'" "c' \<in> set (f_s f')"
    using reg unfolding served_def by blast
  then show "count_list (begins ?es) l = 1 \<and> \<not> has_live w' l \<or>
            count_list (begins ?es) l = 0 \<and> has_live w' l \<and>
              (\<exists>f'. features w' g = Some f' \<and> \<not> f_enabled f')"
  proof cases
    case entered
    from reactions_le_registrations[OF wf, of R n xs l] obtain es' where
      e': "trace (final (run R n xs w)) = trace w @ es'"
        "count_list (begins es') l + (if has_live (final (run R n xs w)) l then 1 else 0)
             \<le> registrations l es' + (if has_live w l then 1 else 0)" by blast
    have "es' = es" using e'(1) es(1) r by simp
    then have "count_list (begins ?es) l \<le> 1" using e'(2) r nl reg ne entered(2) by simp
    moreover have "count_list (begins ?es) l \<noteq> 0" using entered(1) by (simp add: count_list_0_iff)
    ultimately show ?thesis using entered(2) by simp
  next
    case (waits c' f')
    have "settled {} w'" using passes_settle(1)[OF wf st r] .
    then have "\<not> f_enabled f'" using waits(2,4,5) unfolding settled_def by blast
    moreover have "has_live w' l" using waits(2,3) has_live_iff by blast
    moreover have "count_list (begins ?es) l = 0" using waits(1) by (simp add: count_list_0_iff)
    ultimately show ?thesis using waits(4) by simp
  qed
next
  from reactions_le_registrations[OF wf, of R n xs l] obtain es where
    e: "trace (final (run R n xs w)) = trace w @ es"
      "count_list (begins es) l + (if has_live (final (run R n xs w)) l then 1 else 0)
           \<le> registrations l es + (if has_live w l then 1 else 0)" by blast
  have "new_events w (final (run R n xs w)) = es" using e(1) by (rule new_events_append)
  then show "count_list (begins (new_events w (final (run R n xs w)))) l +
             (if has_live (final (run R n xs w)) l then 1 else 0)
           \<le> registrations l (new_events w (final (run R n xs w))) +
             (if has_live w l then 1 else 0)" using e(2) by simp
next
  assume h: "features w g = Some f \<and> \<not> f_enabled f \<and> (\<forall>c\<in>set (f_s f). \<not> connected w c) \<and>
          distinct (ls1 @ ls2) \<and>
          (\<forall>k\<in>set (ls1 @ ls2). listeners w k \<noteq> None \<and> quiet R w k)"
  then have f: "features w g = Some f" and ne: "\<not> f_enabled f"
    and nc: "\<forall>c\<in>set (f_s f). \<not> connected w c" and d: "distinct (ls1 @ ls2)"
    and ex: "\<forall>k\<in>set (ls1 @ ls2). listeners w k \<noteq> None \<and> quiet R w k" by blast+
  show "\<exists>w'. run R (Suc m)
                (map (WhenEnabled g) ls1 @ [Enable g] @ map (WhenEnabled g) ls2 @
                 [DestroyFeature g] @ map DestroyListener (ls1 @ ls2)) w = Inr w' \<and>
             begins (new_events w w') = ls1 @ ls2 \<and>
             (\<forall>k\<in>set (ls1 @ ls2). count_list (begins (new_events w w')) k = 1)"
    by (rule exactly_once_schedule[OF wf f ne nc d ex])
qed


theorem exactly_once_delivery_witness:
  "wf_world fresh_world \<and> signals_wf fresh_world \<and> settled {} fresh_world \<and>
   \<not> has_live fresh_world 0 \<and> \<not> has_live fresh_world 1 \<and> \<not> has_live fresh_world 2 \<and>
   (\<exists>w'. run (\<lambda>l. if l = 0 then [WhenEnabled 0 2] else []) 2
           [WhenEnabled 0 0, Enable 0, WhenEnabled 0 1] fresh_world = Inr w' \<and>
      new_events fresh_world w' =
        [Call (WhenEnabled 0 0), Ret (WhenEnabled 0 0),
         Call (Enable 0), Flagged 0, Resolved 0 True, Slot 0, Begin 0 False,
         Call (WhenEnabled 0 2), Slot 1, Begin 2 False, End 2, Ret (WhenEnabled 0 2),
         End 0, Ret (Enable 0),
         Call (WhenEnabled 0 1), Slot 2, Begin 1 False, End 1, Ret (WhenEnabled 0 1)] \<and>
      count_list (begins (new_events fresh_world w')) 0 = 1 \<and> \<not> has_live w' 0 \<and>
      count_list (begins (new_events fresh_world w')) 1 = 1 \<and> \<not> has_live w' 1 \<and>
      count_list (begins (new_events fresh_world w')) 2 = 1 \<and> \<not> has_live w' 2) \<and>
   count_list (begins (new_events fresh_world
       (final (run (\<lambda>l. [WhenEnabled 0 l]) 3 [Enable 0, WhenEnabled 0 0] fresh_world)))) 0 +
     (if has_live (final (run (\<lambda>l. [WhenEnabled 0 l]) 3 [Enable 0, WhenEnabled 0 0] fresh_world)) 0
      then 1 else 0)
   \<le> registrations 0 (new_events fresh_world
       (final (run (\<lambda>l. [WhenEnabled 0 l]) 3 [Enable 0, WhenEnabled 0 0] fresh_world))) +
     (if has_live fresh_world 0 then 1 else 0) \<and>
   (\<exists>w'. run (\<lambda>_. []) 1
           [WhenEnabled 0 0, WhenEnabled 0 1, Enable 0, WhenEnabled 0 2, DestroyFeature 0,
            DestroyListener 0, DestroyListener 1, DestroyListener 2] fresh_world = Inr w' \<and>
      begins (new_events fresh_world w') = [0, 1, 2] \<and>
      count_list (begins (new_events fresh_world w')) 0 = 1 \<and>
      count_list (begins (new_events fresh_world w')) 1 = 1 \<and>
      count_list (begins (new_events fresh_world w')) 2 = 1)"
proof -
  let ?F = "\<lparr>f_name = ''CDC'', f_enabled = False,
      f_pr = \<lparr>sp_available = False, sp_peers = []\<rparr>, f_s = [],
      f_ctor_enabled = False, f_enable_calls = 0\<rparr>"
  note t = exactly_once_delivery[OF wf_fresh_world signals_wf_fresh_world settled_fresh_world]
  have nl: "\<not> has_live fresh_world 0" "\<not> has_live fresh_world 1" "\<not> has_live fresh_world 2"
    by (simp_all add: has_live_def fresh_world_fields)
  \<comment> \<open>a reaction that registers another listener\<close>
  let ?R = "\<lambda>l::nat. if l = 0 then [WhenEnabled 0 2] else []"
  let ?xs = "[WhenEnabled 0 0, Enable 0, WhenEnabled 0 1]"
  let ?es = "[Call (WhenEnabled 0 0), Ret (WhenEnabled 0 0),
         Call (Enable 0), Flagged 0, Resolved 0 True, Slot 0, Begin 0 False,
         Call (WhenEnabled 0 2), Slot 1, Begin 2 False, End 2, Ret (WhenEnabled 0 2),
         End 0, Ret (Enable 0),
         Call (WhenEnabled 0 1), Slot 2, Begin 1 False, End 1, Ret (WhenEnabled 0 1)]"
  have "\<exists>w'. run ?R 2 ?xs fresh_world = Inr w' \<and> new_events fresh_world w' = ?es \<and>
          map_option f_enabled (features w' 0) = Some True"
    by (simp add: fresh_world_eq world_eval)
  then obtain w' where r: "run ?R 2 ?xs fresh_world = Inr w'"
    and ne: "new_events fresh_world w' = ?es"
    and en: "map_option f_enabled (features w' 0) = Some True" by blast
  have en': "\<not> (\<exists>f'. features w' 0 = Some f' \<and> \<not> f_enabled f')" using en by auto
  have reg: "registrations 0 (new_events fresh_world w') = 1"
      "registrations 1 (new_events fresh_world w') = 1"
      "registrations 2 (new_events fresh_world w') = 1"
    unfolding ne by (simp_all add: registrations_def)
  have c0: "count_list (begins (new_events fresh_world w')) 0 = 1 \<and> \<not> has_live w' 0"
    using t[where R = ?R and n = 2 and xs = ?xs and g = 0 and l = 0,
            THEN conjunct1, THEN spec, THEN mp, OF r] nl(1) reg(1) en'
    unfolding ne by simp
  have c1: "count_list (begins (new_events fresh_world w')) 1 = 1 \<and> \<not> has_live w' 1"
    using t[where R = ?R and n = 2 and xs = ?xs and g = 0 and l = 1,
            THEN conjunct1, THEN spec, THEN mp, OF r] nl(2) reg(2) en'
    unfolding ne by simp
  have c2: "count_list (begins (new_events fresh_world w')) 2 = 1 \<and> \<not> has_live w' 2"
    using t[where R = ?R and n = 2 and xs = ?xs and g = 0 and l = 2,
            THEN conjunct1, THEN spec, THEN mp, OF r] nl(3) reg(3) en'
    unfolding ne by simp
  have a: "\<exists>w'. run ?R 2 ?xs fresh_world = Inr w' \<and> new_events fresh_world w' = ?es \<and>
      count_list (begins (new_events fresh_world w')) 0 = 1 \<and> \<not> has_live w' 0 \<and>
      count_list (begins (new_events fresh_world w')) 1 = 1 \<and> \<not> has_live w' 1 \<and>
      count_list (begins (new_events fresh_world w')) 2 = 1 \<and> \<not> has_live w' 2"
    using r ne c0 c1 c2 by blast
  \<comment> \<open>reactions that register their own listener again\<close>
  have b: "count_list (begins (new_events fresh_world
       (final (run (\<lambda>l. [WhenEnabled 0 l]) 3 [Enable 0, WhenEnabled 0 0] fresh_world)))) 0 +
     (if has_live (final (run (\<lambda>l. [WhenEnabled 0 l]) 3 [Enable 0, WhenEnabled 0 0] fresh_world)) 0
      then 1 else 0)
   \<le> registrations 0 (new_events fresh_world
       (final (run (\<lambda>l. [WhenEnabled 0 l]) 3 [Enable 0, WhenEnabled 0 0] fresh_world))) +
     (if has_live fresh_world 0 then 1 else 0)"
    by (rule t[where R = "\<lambda>l. [WhenEnabled 0 l]" and n = 3 and xs = "[Enable 0, WhenEnabled 0 0]"
               and l = 0, THEN conjunct2, THEN conjunct1])
  \<comment> \<open>the schedule of the claim, with N = 2 and M = 1\<close>
  have h: "features fresh_world 0 = Some ?F \<and> \<not> f_enabled ?F \<and>
      (\<forall>c\<in>set (f_s ?F). \<not> connected fresh_world c) \<and> distinct ([0, 1] @ [2::nat]) \<and>
      (\<forall>k\<in>set ([0, 1] @ [2]). listeners fresh_world k \<noteq> None \<and> quiet (\<lambda>_. []) fresh_world k)"
    by (simp add: fresh_world_fields quiet_def)
  from t[where R = "\<lambda>_. []" and g = 0 and f = ?F and ?ls1.0 = "[0, 1]" and ?ls2.0 = "[2]" and m = 0,
         THEN conjunct2, THEN conjunct2, THEN mp, OF h]
  obtain w'' where "run (\<lambda>_. []) (Suc 0)
                (map (WhenEnabled 0) [0, 1] @ [Enable 0] @ map (WhenEnabled 0) [2] @
                 [DestroyFeature 0] @ map DestroyListener ([0, 1] @ [2])) fresh_world = Inr w''"
    "begins (new_events fresh_world w'') = [0, 1] @ [2]"
    "\<forall>l\<in>set ([0, 1] @ [2]). count_list (begins (new_events fresh_world w'')) l = 1"
    by auto
  then have "run (\<lambda>_. []) 1
           [WhenEnabled 0 0, WhenEnabled 0 1, Enable 0, WhenEnabled 0 2, DestroyFeature 0,
            DestroyListener 0, DestroyListener 1, DestroyListener 2] fresh_world = Inr w''"
    "begins (new_events fresh_world w'') = [0, 1, 2]"
    "count_list (begins (new_events fresh_world w'')) 0 = 1"
    "count_list (begins (new_events fresh_world w'')) 1 = 1"
    "count_list (begins (new_events fresh_world w'')) 2 = 1"
    by (simp_all del: run.simps)
  then have c: "\<exists>w'. run (\<lambda>_. []) 1
           [WhenEnabled 0 0, WhenEnabled 0 1, Enable 0, WhenEnabled 0 2, DestroyFeature 0,
            DestroyListener 0, DestroyListener 1, DestroyListener 2] fresh_world = Inr w' \<and>
      begins (new_events fresh_world w') = [0, 1, 2] \<and>
      count_list (begins (new_events fresh_world w')) 0 = 1 \<and>
      count_list (begins (new_events fresh_world w')) 1 = 1 \<and>
      count_list (begins (new_events fresh_world w')) 2 = 1" by blast
  show ?thesis
    using wf_fresh_world signals_wf_fresh_world settled_fresh_world nl a b c by blast
qed

end
